theory Spec2Isabelle
  imports Main
begin

section \<open>The simple file system of \<open>filesystem.c\<close>\<close>

text \<open>
  The program keeps one global \<open>FileSystem\<close> value: a pool of \<open>MAX_BLOCKS\<close> blocks of
  \<open>BLOCK_SIZE\<close> bytes, an occupancy map, a table of \<open>MAX_FILES\<close> file entries and three
  counters. Every function of the source becomes a function that takes the state and
  returns the new one together with its result.

  \<^item> A C array is a function from the index to the element. The code only ever uses
    indices inside the array in the states it can reach (this is part of the invariant
    proved below), and the cells outside the array are never looked at by a theorem.
  \<^item> A \<open>size_t\<close> is a natural number below \<open>SIZE_MOD = 2 ^ 64\<close>. Additions and
    subtractions that are not bounded by a guard at the place where they stand are
    written with \<open>size_add\<close> and \<open>size_sub\<close>, which wrap around. The sums of
    \<open>write_file\<close> stay plain: it adds an offset that it has just found to be at most
    the file size, a position inside a block, and the length of a string that lies in
    memory beside the file system, whose own storage takes more than \<open>MAX_STORAGE\<close>
    bytes of the address space.
  \<^item> A \<open>const char *\<close> argument is \<open>None\<close> for the null pointer and \<open>Some xs\<close> for a
    pointer to the bytes \<open>xs\<close> followed by a terminating zero byte. The C string it
    denotes ends at the first zero byte, which is \<open>c_str xs\<close>.
  \<^item> Every \<open>return -1\<close> is an \<open>error\<close> value that names the diagnostic printed just
    before it; \<open>return 0\<close> is \<open>Inr\<close>.
\<close>

subsection \<open>Constants\<close>

definition BLOCK_SIZE :: nat where
  "BLOCK_SIZE = 512"

definition MAX_FILES :: nat where
  "MAX_FILES = 100"

definition MAX_STORAGE :: nat where
  "MAX_STORAGE = 1024 * 1024"

definition MAX_BLOCKS :: nat where
  "MAX_BLOCKS = MAX_STORAGE div BLOCK_SIZE"

definition MAX_FILENAME :: nat where
  "MAX_FILENAME = 256"

definition MAX_FILE_SIZE :: nat where
  "MAX_FILE_SIZE = 1024 * 1024"

definition SIZE_MOD :: nat where
  "SIZE_MOD = 2 ^ 64"

definition size_add :: "nat \<Rightarrow> nat \<Rightarrow> nat" where
  "size_add a b = (a + b) mod SIZE_MOD"

definition size_sub :: "nat \<Rightarrow> nat \<Rightarrow> nat" where
  "size_sub a b = (a + (SIZE_MOD - b mod SIZE_MOD)) mod SIZE_MOD"

subsection \<open>Strings\<close>

definition NUL :: char where
  "NUL = CHR 0x00"

definition c_str :: "string \<Rightarrow> string" where
  "c_str xs = takeWhile (\<lambda>c. c \<noteq> NUL) xs"

definition strlen :: "string \<Rightarrow> nat" where
  "strlen xs = length (c_str xs)"

subsection \<open>Data\<close>

record FileEntry =
  filename :: string
  size_fe :: nat
  num_blocks :: nat
  blocks_fe :: "nat \<Rightarrow> nat"
  in_use :: bool

record FileSystem =
  blocks :: "nat \<Rightarrow> nat \<Rightarrow> char"
  block_map :: "nat \<Rightarrow> bool"
  file_table :: "nat \<Rightarrow> FileEntry"
  num_files :: nat
  used_blocks :: nat
  total_storage :: nat

datatype error =
    InvalidName
  | ZeroSize
  | SizeTooLarge
  | AlreadyExists
  | TooManyFiles
  | NoSpace
  | NoFreeSlot
  | AllocFailed
  | InvalidParams
  | NotFound
  | OffsetBeyondSize
  | WriteBeyondSize
  | Undefined

text \<open>
  \<open>Undefined\<close> is not a return value: it stands for a \<open>memcpy\<close> that runs past the end
  of a block, where the C program has no defined behaviour. All other errors are a
  diagnostic followed by \<open>return -1\<close>.
\<close>

definition ret_code :: "error + 'a \<Rightarrow> int" where
  "ret_code r = (case r of Inl e \<Rightarrow> - 1 | Inr v \<Rightarrow> 0)"

subsection \<open>\<open>init_filesystem\<close>\<close>

definition zero_storage :: FileSystem where
  "zero_storage =
     \<lparr>blocks = (\<lambda>b p. NUL), block_map = (\<lambda>b. False),
      file_table = (\<lambda>i. \<lparr>filename = [], size_fe = 0, num_blocks = 0,
                           blocks_fe = (\<lambda>k. 0), in_use = False\<rparr>),
      num_files = 0, used_blocks = 0, total_storage = 0\<rparr>"

definition init_filesystem :: "FileSystem \<Rightarrow> FileSystem" where
  "init_filesystem s =
     s\<lparr>blocks := fold (\<lambda>b blks. blks(b := fold (\<lambda>p row. row(p := NUL)) [0..<BLOCK_SIZE] (blks b)))
                      [0..<MAX_BLOCKS] (blocks s),
       block_map := fold (\<lambda>i bm. bm(i := False)) [0..<MAX_BLOCKS] (block_map s),
       file_table := fold (\<lambda>i ft. ft(i := (ft i)\<lparr>in_use := False, filename := [],
                                                  size_fe := 0, num_blocks := 0\<rparr>))
                          [0..<MAX_FILES] (file_table s),
       num_files := 0, used_blocks := 0, total_storage := 0\<rparr>"

subsection \<open>\<open>find_file\<close>\<close>

text \<open>The result is the index of the entry (the C function returns its address).\<close>

definition find_file :: "FileSystem \<Rightarrow> string \<Rightarrow> nat option" where
  "find_file s fname =
     find (\<lambda>i. in_use (file_table s i) \<and> c_str (filename (file_table s i)) = c_str fname)
          [0..<MAX_FILES]"

subsection \<open>\<open>allocate_blocks\<close> and \<open>free_blocks\<close>\<close>

function check_sequence :: "(nat \<Rightarrow> bool) \<Rightarrow> nat \<Rightarrow> nat \<Rightarrow> nat \<Rightarrow> bool" where
  "check_sequence bm i n j =
     (if j < n then
        (if i + j \<ge> MAX_BLOCKS \<or> bm (i + j) then False
         else check_sequence bm i n (j + 1))
      else True)"
  by pat_completeness auto
termination
  by (relation "measure (\<lambda>(bm, i, n, j). n - j)") auto

definition assign_sequence ::
  "nat \<Rightarrow> nat \<Rightarrow> (nat \<Rightarrow> bool) \<times> (nat \<Rightarrow> nat) \<Rightarrow> (nat \<Rightarrow> bool) \<times> (nat \<Rightarrow> nat)" where
  "assign_sequence i n =
     fold (\<lambda>j (bm, bl). (bm(i + j := True), bl(j := i + j))) [0..<n]"

text \<open>
  The first loop of \<open>allocate_blocks\<close>. Its variable \<open>allocated\<close> is 0 until the
  function returns from inside the loop, so the loop condition \<open>allocated < num_blocks\<close>
  is \<open>0 < n\<close>. \<open>None\<close> means that the loop ended without returning.
\<close>

function alloc_consecutive ::
  "FileSystem \<Rightarrow> nat \<Rightarrow> (nat \<Rightarrow> nat) \<Rightarrow> nat \<Rightarrow> (nat \<times> (nat \<Rightarrow> nat) \<times> FileSystem) option" where
  "alloc_consecutive s n bl i =
     (if i < MAX_BLOCKS \<and> 0 < n then
        (if \<not> block_map s i \<and> check_sequence (block_map s) i n 0 then
           (case assign_sequence i n (block_map s, bl) of
              (bm, bl') \<Rightarrow>
                Some (n, bl', s\<lparr>block_map := bm, used_blocks := size_add (used_blocks s) n\<rparr>))
         else alloc_consecutive s n bl (i + 1))
      else None)"
  by pat_completeness auto
termination
  by (relation "measure (\<lambda>(s, n, bl, i). MAX_BLOCKS - i)") auto

function alloc_scattered ::
  "FileSystem \<Rightarrow> nat \<Rightarrow> (nat \<Rightarrow> nat) \<Rightarrow> nat \<Rightarrow> nat \<Rightarrow> nat \<times> (nat \<Rightarrow> nat) \<times> FileSystem" where
  "alloc_scattered s n bl i allocated =
     (if i < MAX_BLOCKS \<and> allocated < n then
        (if \<not> block_map s i then
           alloc_scattered
             (s\<lparr>block_map := (block_map s)(i := True),
                used_blocks := size_add (used_blocks s) 1\<rparr>)
             n (bl(allocated := i)) (i + 1) (allocated + 1)
         else alloc_scattered s n bl (i + 1) allocated)
      else (allocated, bl, s))"
  by pat_completeness auto
termination
  by (relation "measure (\<lambda>(s, n, bl, i, allocated). MAX_BLOCKS - i)") auto

text \<open>
  \<open>allocate_blocks s n bl\<close>: \<open>bl\<close> is the array \<open>block_list\<close> before the call; the result
  is the returned count, the array after the call and the new state.
\<close>

definition allocate_blocks ::
  "FileSystem \<Rightarrow> nat \<Rightarrow> (nat \<Rightarrow> nat) \<Rightarrow> nat \<times> (nat \<Rightarrow> nat) \<times> FileSystem" where
  "allocate_blocks s n bl =
     (if n = 0 \<or> n > MAX_BLOCKS then (0, bl, s)
      else if size_add (used_blocks s) n > MAX_BLOCKS then (0, bl, s)
      else (case alloc_consecutive s n bl 0 of
              Some r \<Rightarrow> r
            | None \<Rightarrow> alloc_scattered s n bl 0 0))"

definition free_block :: "(nat \<Rightarrow> nat) \<Rightarrow> nat \<Rightarrow> FileSystem \<Rightarrow> FileSystem" where
  "free_block bl i s =
     (if bl i < MAX_BLOCKS \<and> block_map s (bl i) then
        s\<lparr>block_map := (block_map s)(bl i := False),
          blocks := (blocks s)(bl i := fold (\<lambda>p row. row(p := NUL)) [0..<BLOCK_SIZE] (blocks s (bl i))),
          used_blocks := size_sub (used_blocks s) 1\<rparr>
      else s)"

definition free_blocks :: "FileSystem \<Rightarrow> nat \<Rightarrow> (nat \<Rightarrow> nat) \<Rightarrow> FileSystem" where
  "free_blocks s n bl = fold (free_block bl) [0..<n] s"

subsection \<open>\<open>create_file\<close>\<close>

text \<open>
  \<open>allocate_blocks\<close> writes the block list straight into the chosen entry of the file
  table, so the entry holds the new list whether or not the allocation is complete.
  \<open>strncpy\<close> with \<open>MAX_FILENAME - 1\<close> and the terminator stored after it leave the
  first \<open>MAX_FILENAME - 1\<close> characters of the name in the entry.
\<close>

definition create_file ::
  "FileSystem \<Rightarrow> string option \<Rightarrow> nat \<Rightarrow> (error + unit) \<times> FileSystem" where
  "create_file s fname sz =
     (case fname of
        None \<Rightarrow> (Inl InvalidName, s)
      | Some nm \<Rightarrow>
          if strlen nm = 0 then (Inl InvalidName, s)
          else if sz = 0 then (Inl ZeroSize, s)
          else if sz > MAX_FILE_SIZE then (Inl SizeTooLarge, s)
          else if find_file s nm \<noteq> None then (Inl AlreadyExists, s)
          else if num_files s \<ge> MAX_FILES then (Inl TooManyFiles, s)
          else
            let nb = (sz + BLOCK_SIZE - 1) div BLOCK_SIZE in
            if size_add (used_blocks s) nb > MAX_BLOCKS then (Inl NoSpace, s)
            else
              (case find (\<lambda>i. \<not> in_use (file_table s i)) [0..<MAX_FILES] of
                 None \<Rightarrow> (Inl NoFreeSlot, s)
               | Some file_index \<Rightarrow>
                   (case allocate_blocks s nb (blocks_fe (file_table s file_index)) of
                      (allocated, bl, s1) \<Rightarrow>
                        let s2 = s1\<lparr>file_table := (file_table s1)
                                   (file_index := (file_table s1 file_index)\<lparr>blocks_fe := bl\<rparr>)\<rparr>
                        in
                        if allocated < nb then
                          (Inl AllocFailed,
                           if allocated > 0 then free_blocks s2 allocated bl else s2)
                        else
                          (Inr (),
                           s2\<lparr>file_table := (file_table s2)
                                (file_index := (file_table s2 file_index)
                                   \<lparr>filename := take (MAX_FILENAME - 1) (c_str nm),
                                    size_fe := sz, num_blocks := nb, in_use := True\<rparr>),
                              num_files := size_add (num_files s2) 1,
                              total_storage := size_add (total_storage s2) sz\<rparr>))))"

subsection \<open>\<open>write_file\<close>\<close>

text \<open>\<open>memcpy (&fs.blocks[b][pos], src, length src)\<close>.\<close>

definition memcpy_block ::
  "(nat \<Rightarrow> nat \<Rightarrow> char) \<Rightarrow> nat \<Rightarrow> nat \<Rightarrow> string \<Rightarrow> (nat \<Rightarrow> nat \<Rightarrow> char)" where
  "memcpy_block blks b pos src =
     blks(b := (\<lambda>p. if pos \<le> p \<and> p < pos + length src then src ! (p - pos) else blks b p))"

function write_loop ::
  "FileEntry \<Rightarrow> string \<Rightarrow> nat \<Rightarrow> (nat \<Rightarrow> nat \<Rightarrow> char) \<Rightarrow> nat \<Rightarrow> nat \<Rightarrow> nat
     \<Rightarrow> nat \<times> (nat \<Rightarrow> nat \<Rightarrow> char)" where
  "write_loop fe data data_len blks bytes_written current_block current_pos =
     (if bytes_written < data_len \<and> current_block < num_blocks fe then
        let block_index = blocks_fe fe current_block;
            bytes_to_write = data_len - bytes_written;
            bytes_to_write = (if current_pos + bytes_to_write > BLOCK_SIZE
                              then BLOCK_SIZE - current_pos else bytes_to_write)
        in write_loop fe data data_len
             (memcpy_block blks block_index current_pos
                (take bytes_to_write (drop bytes_written data)))
             (bytes_written + bytes_to_write) (current_block + 1) 0
      else (bytes_written, blks))"
  by pat_completeness auto
termination
  by (relation "measure (\<lambda>(fe, data, data_len, blks, bw, cb, cp). num_blocks fe - cb)") auto

text \<open>
  The result \<open>Inr k\<close> carries the value of \<open>bytes_written\<close> that the function prints;
  the C function itself returns \<open>ret_code\<close> of the result.
\<close>

definition write_file ::
  "FileSystem \<Rightarrow> string option \<Rightarrow> nat \<Rightarrow> string option \<Rightarrow> (error + nat) \<times> FileSystem" where
  "write_file s fname offset data =
     (case (fname, data) of
        (Some nm, Some d) \<Rightarrow>
          (case find_file s nm of
             None \<Rightarrow> (Inl NotFound, s)
           | Some fi \<Rightarrow>
               let file = file_table s fi in
               if offset > size_fe file then (Inl OffsetBeyondSize, s)
               else
                 let data_len = strlen d in
                 if offset + data_len > size_fe file then (Inl WriteBeyondSize, s)
                 else
                   (case write_loop file d data_len (blocks s) 0
                           (offset div BLOCK_SIZE) (offset mod BLOCK_SIZE) of
                      (bytes_written, blks) \<Rightarrow> (Inr bytes_written, s\<lparr>blocks := blks\<rparr>)))
      | _ \<Rightarrow> (Inl InvalidParams, s))"

subsection \<open>\<open>read_file\<close>\<close>

text \<open>
  The loop variable \<open>buffer\<close> holds the \<open>bytes_read\<close> bytes stored so far, so a
  \<open>memcpy\<close> to \<open>&buffer[bytes_read]\<close> appends. The requested size comes from the
  caller unchecked, so both sums that involve it wrap around; where the second one wraps,
  the length is not cut down to the rest of the block and the \<open>memcpy\<close> leaves the block.
\<close>

function read_loop ::
  "FileSystem \<Rightarrow> FileEntry \<Rightarrow> nat \<Rightarrow> nat \<Rightarrow> nat \<Rightarrow> nat \<Rightarrow> string \<Rightarrow> (nat \<times> string) option" where
  "read_loop s fe bytes_to_read bytes_read current_block current_pos buffer =
     (if bytes_read < bytes_to_read \<and> current_block < num_blocks fe then
        let block_index = blocks_fe fe current_block;
            bytes_to_read_now = bytes_to_read - bytes_read;
            bytes_to_read_now = (if size_add current_pos bytes_to_read_now > BLOCK_SIZE
                                 then BLOCK_SIZE - current_pos else bytes_to_read_now)
        in if current_pos + bytes_to_read_now > BLOCK_SIZE then None
           else read_loop s fe bytes_to_read (bytes_read + bytes_to_read_now)
                  (current_block + 1) 0
                  (buffer @ map (blocks s block_index)
                                [current_pos..<current_pos + bytes_to_read_now])
      else Some (bytes_read, buffer))"
  by pat_completeness auto
termination
  by (relation "measure (\<lambda>(s, fe, n, br, cb, cp, buf). num_blocks fe - cb)") auto

text \<open>
  \<open>read_file\<close> does not assign to the file system, so it returns no state. Its argument
  \<open>buffer\<close> only says whether the pointer is null; the result \<open>Inr bs\<close> is the sequence
  of bytes that the call stores through it, from index 0 on: the bytes read, then the
  terminator written by \<open>buffer[bytes_read] = '\0'\<close>. The C function returns
  \<open>ret_code\<close> of the result and nothing else. The buffer is the caller's, who has to
  make it large enough.
\<close>

definition read_file ::
  "FileSystem \<Rightarrow> string option \<Rightarrow> nat \<Rightarrow> nat \<Rightarrow> unit option \<Rightarrow> error + string" where
  "read_file s fname offset sz buffer =
     (case (fname, buffer) of
        (Some nm, Some u) \<Rightarrow>
          if sz = 0 then Inl InvalidParams
          else
            (case find_file s nm of
               None \<Rightarrow> Inl NotFound
             | Some fi \<Rightarrow>
                 let file = file_table s fi in
                 if offset \<ge> size_fe file then Inl OffsetBeyondSize
                 else
                   let bytes_to_read = (if size_add offset sz > size_fe file
                                        then size_fe file - offset else sz)
                   in
                   (case read_loop s file bytes_to_read 0
                           (offset div BLOCK_SIZE) (offset mod BLOCK_SIZE) [] of
                      None \<Rightarrow> Inl Undefined
                    | Some (bytes_read, buf) \<Rightarrow> Inr (buf @ [NUL])))
      | _ \<Rightarrow> Inl InvalidParams)"

subsection \<open>\<open>delete_file\<close>\<close>

definition delete_file :: "FileSystem \<Rightarrow> string option \<Rightarrow> (error + unit) \<times> FileSystem" where
  "delete_file s fname =
     (case fname of
        None \<Rightarrow> (Inl InvalidName, s)
      | Some nm \<Rightarrow>
          (case find_file s nm of
             None \<Rightarrow> (Inl NotFound, s)
           | Some fi \<Rightarrow>
               let file = file_table s fi;
                   s1 = free_blocks s (num_blocks file) (blocks_fe file)
               in (Inr (),
                   s1\<lparr>total_storage := size_sub (total_storage s1) (size_fe file),
                      num_files := size_sub (num_files s1) 1,
                      file_table := (file_table s1)
                        (fi := (file_table s1 fi)\<lparr>in_use := False, filename := [],
                                                  size_fe := 0, num_blocks := 0\<rparr>)\<rparr>)))"

subsection \<open>\<open>list_files\<close>\<close>

text \<open>
  \<open>list_files\<close> only prints. The result is what it prints: \<open>None\<close> for the notice that
  there are no files, and otherwise the name and the size of every entry in use, in the
  order of the table, with the three counters of the last line.
\<close>

definition list_files :: "FileSystem \<Rightarrow> ((string \<times> nat) list \<times> nat \<times> nat \<times> nat) option" where
  "list_files s =
     (if num_files s = 0 then None
      else Some (map (\<lambda>i. (c_str (filename (file_table s i)), size_fe (file_table s i)))
                     (filter (\<lambda>i. in_use (file_table s i)) [0..<MAX_FILES]),
                 num_files s, total_storage s, used_blocks s))"

subsection \<open>Reachable states\<close>

text \<open>
  The states the program can be in between two operations: \<open>init_filesystem\<close> runs
  once, on any storage, and then \<open>create_file\<close>, \<open>write_file\<close> and \<open>delete_file\<close> run
  with any arguments. \<open>read_file\<close> and \<open>list_files\<close> leave the state as it is.
\<close>

inductive reachable :: "FileSystem \<Rightarrow> bool" where
  r_init: "reachable (init_filesystem s0)"
| r_create: "reachable s \<Longrightarrow> reachable (snd (create_file s fname sz))"
| r_write: "reachable s \<Longrightarrow> reachable (snd (write_file s fname offset data))"
| r_delete: "reachable s \<Longrightarrow> reachable (snd (delete_file s fname))"

section \<open>Specification\<close>

subsection \<open>The allocation policy\<close>

text \<open>
  What \<open>allocate_blocks\<close> is specified to hand out, in the words of the
  specification: \<open>free_run bm i n\<close> holds when the \<open>n\<close> blocks from \<open>i\<close> on are inside
  the pool and free; \<open>first_run\<close> is the start of the first such run in ascending order;
  \<open>first_free\<close> is the list of the first \<open>n\<close> free blocks in ascending order;
  \<open>alloc_choice\<close> is the run if there is one and the first free blocks otherwise.
\<close>

definition free_run :: "(nat \<Rightarrow> bool) \<Rightarrow> nat \<Rightarrow> nat \<Rightarrow> bool" where
  "free_run bm i n = (\<forall>j \<in> {0..<n}. i + j < MAX_BLOCKS \<and> \<not> bm (i + j))"

definition first_run :: "(nat \<Rightarrow> bool) \<Rightarrow> nat \<Rightarrow> nat option" where
  "first_run bm n = find (\<lambda>i. free_run bm i n) [0..<MAX_BLOCKS]"

definition first_free :: "(nat \<Rightarrow> bool) \<Rightarrow> nat \<Rightarrow> nat list" where
  "first_free bm n = take n (filter (\<lambda>b. \<not> bm b) [0..<MAX_BLOCKS])"

definition alloc_choice :: "(nat \<Rightarrow> bool) \<Rightarrow> nat \<Rightarrow> nat list" where
  "alloc_choice bm n =
     (case first_run bm n of Some i \<Rightarrow> [i..<i + n] | None \<Rightarrow> first_free bm n)"

text \<open>
  \<open>free_from\<close> lists the free blocks from an index on, \<open>mark\<close> marks a list of blocks
  as occupied, and \<open>store_list bl a L\<close> is the array \<open>bl\<close> after \<open>L\<close> has been stored
  from index \<open>a\<close> on.
\<close>

definition free_from :: "(nat \<Rightarrow> bool) \<Rightarrow> nat \<Rightarrow> nat list" where
  "free_from bm i = filter (\<lambda>b. \<not> bm b) [i..<MAX_BLOCKS]"

definition mark :: "(nat \<Rightarrow> bool) \<Rightarrow> nat list \<Rightarrow> nat \<Rightarrow> bool" where
  "mark bm L = (\<lambda>b. if b \<in> set L then True else bm b)"

definition store_list :: "(nat \<Rightarrow> nat) \<Rightarrow> nat \<Rightarrow> nat list \<Rightarrow> nat \<Rightarrow> nat" where
  "store_list bl a L = (\<lambda>j. if a \<le> j \<and> j < a + length L then L ! (j - a) else bl j)"

text \<open>
  \<open>freed s n bl\<close> is the set of blocks that \<open>free_blocks\<close> frees: those of the first
  \<open>n\<close> entries of the list that are inside the pool and occupied. \<open>clear_block\<close> is
  the content of a block after its \<open>memset\<close>.
\<close>

definition freed :: "FileSystem \<Rightarrow> nat \<Rightarrow> (nat \<Rightarrow> nat) \<Rightarrow> nat set" where
  "freed s n bl = {b. \<exists>i<n. bl i = b \<and> b < MAX_BLOCKS \<and> block_map s b}"

definition clear_block :: "(nat \<Rightarrow> char) \<Rightarrow> nat \<Rightarrow> char" where
  "clear_block row = (\<lambda>p. if p < BLOCK_SIZE then NUL else row p)"

subsection \<open>Recounts and the state invariant\<close>

text \<open>
  The recounts over the block map and the file table that the cached counters are
  compared with.
\<close>

definition occupied_count :: "FileSystem \<Rightarrow> nat" where
  "occupied_count s = length (filter (block_map s) [0..<MAX_BLOCKS])"

definition free_count :: "FileSystem \<Rightarrow> nat" where
  "free_count s = length (filter (\<lambda>b. \<not> block_map s b) [0..<MAX_BLOCKS])"

definition blocks_sum :: "FileSystem \<Rightarrow> nat" where
  "blocks_sum s =
     sum_list (map (\<lambda>i. if in_use (file_table s i) then num_blocks (file_table s i) else 0)
                   [0..<MAX_FILES])"

definition live_count :: "FileSystem \<Rightarrow> nat" where
  "live_count s = length (filter (\<lambda>i. in_use (file_table s i)) [0..<MAX_FILES])"

definition storage_sum :: "FileSystem \<Rightarrow> nat" where
  "storage_sum s =
     sum_list (map (\<lambda>i. if in_use (file_table s i) then size_fe (file_table s i) else 0)
                   [0..<MAX_FILES])"

definition counters_agree :: "FileSystem \<Rightarrow> bool" where
  "counters_agree s =
     (blocks_sum s = occupied_count s \<and> occupied_count s = used_blocks s \<and>
      num_files s = live_count s \<and> total_storage s = storage_sum s)"

text \<open>
  No two entries in use list the same block (\<open>blocks_exclusive\<close>), every listed
  block is inside the pool and occupied (\<open>blocks_occupied\<close>), no entry lists a block
  twice (\<open>blocks_distinct\<close>), the size of an entry in use is positive and within the
  limit and its block count is the size rounded up to blocks (\<open>files_wf\<close>), and a free
  block holds only zero bytes (\<open>free_zero\<close>).
\<close>

definition blocks_exclusive :: "FileSystem \<Rightarrow> bool" where
  "blocks_exclusive s =
     (\<forall>i<MAX_FILES. \<forall>j<MAX_FILES.
        in_use (file_table s i) \<and> in_use (file_table s j) \<and> i \<noteq> j \<longrightarrow>
        (\<forall>k<num_blocks (file_table s i). \<forall>l<num_blocks (file_table s j).
           blocks_fe (file_table s i) k \<noteq> blocks_fe (file_table s j) l))"

definition blocks_occupied :: "FileSystem \<Rightarrow> bool" where
  "blocks_occupied s =
     (\<forall>i<MAX_FILES. in_use (file_table s i) \<longrightarrow>
        (\<forall>k<num_blocks (file_table s i).
           blocks_fe (file_table s i) k < MAX_BLOCKS \<and>
           block_map s (blocks_fe (file_table s i) k)))"

definition blocks_distinct :: "FileSystem \<Rightarrow> bool" where
  "blocks_distinct s =
     (\<forall>i<MAX_FILES. in_use (file_table s i) \<longrightarrow>
        inj_on (blocks_fe (file_table s i)) {..<num_blocks (file_table s i)})"

definition files_wf :: "FileSystem \<Rightarrow> bool" where
  "files_wf s =
     (\<forall>i<MAX_FILES. in_use (file_table s i) \<longrightarrow>
        0 < size_fe (file_table s i) \<and> size_fe (file_table s i) \<le> MAX_FILE_SIZE \<and>
        num_blocks (file_table s i) = (size_fe (file_table s i) + BLOCK_SIZE - 1) div BLOCK_SIZE)"

definition free_zero :: "FileSystem \<Rightarrow> bool" where
  "free_zero s =
     (\<forall>b<MAX_BLOCKS. \<not> block_map s b \<longrightarrow> (\<forall>p<BLOCK_SIZE. blocks s b p = NUL))"

definition fs_inv :: "FileSystem \<Rightarrow> bool" where
  "fs_inv s =
     (counters_agree s \<and> blocks_exclusive s \<and> blocks_occupied s \<and> blocks_distinct s \<and>
      files_wf s \<and> free_zero s)"

subsection \<open>Closed forms\<close>

text \<open>
  The state after a successful \<open>create_file\<close> that uses the entry \<open>fi\<close>, the state
  after a successful \<open>delete_file\<close> of the entry \<open>fi\<close>, and the byte of a file at a
  logical offset: offset \<open>ofs\<close> lies in the block \<open>blocks[ofs / BLOCK_SIZE]\<close> of the
  entry, at position \<open>ofs % BLOCK_SIZE\<close>.
\<close>

definition blocks_needed :: "nat \<Rightarrow> nat" where
  "blocks_needed sz = (sz + BLOCK_SIZE - 1) div BLOCK_SIZE"

definition create_result :: "FileSystem \<Rightarrow> string \<Rightarrow> nat \<Rightarrow> nat \<Rightarrow> FileSystem" where
  "create_result s nm sz fi =
     s\<lparr>block_map := mark (block_map s) (alloc_choice (block_map s) (blocks_needed sz)),
       used_blocks := used_blocks s + blocks_needed sz,
       file_table := (file_table s)
         (fi := (file_table s fi)
            \<lparr>blocks_fe := store_list (blocks_fe (file_table s fi)) 0
                            (alloc_choice (block_map s) (blocks_needed sz)),
             filename := take (MAX_FILENAME - 1) (c_str nm),
             size_fe := sz, num_blocks := blocks_needed sz, in_use := True\<rparr>),
       num_files := num_files s + 1,
       total_storage := total_storage s + sz\<rparr>"

definition delete_result :: "FileSystem \<Rightarrow> nat \<Rightarrow> FileSystem" where
  "delete_result s fi =
     (let file = file_table s fi;
          s1 = free_blocks s (num_blocks file) (blocks_fe file)
      in s1\<lparr>total_storage := size_sub (total_storage s1) (size_fe file),
            num_files := size_sub (num_files s1) 1,
            file_table := (file_table s1)
              (fi := (file_table s1 fi)\<lparr>in_use := False, filename := [],
                                        size_fe := 0, num_blocks := 0\<rparr>)\<rparr>)"

definition byte_at :: "(nat \<Rightarrow> nat \<Rightarrow> char) \<Rightarrow> FileEntry \<Rightarrow> nat \<Rightarrow> char" where
  "byte_at blks fe ofs = blks (blocks_fe fe (ofs div BLOCK_SIZE)) (ofs mod BLOCK_SIZE)"

subsection \<open>Example states\<close>

text \<open>
  \<open>fs0\<close> is the state after \<open>init_filesystem\<close> on zero-initialised storage, \<open>fs1\<close>
  the state after a file \<open>f\<close> of 10 bytes has been created in it, and \<open>fs2\<close> the state
  after ten digits have been written to that file. \<open>fs3\<close> is \<open>fs2\<close> after a second
  file \<open>g\<close> of 600 bytes has been created, \<open>fs4\<close> is \<open>fs2\<close> after the file \<open>f\<close> has
  been deleted, and \<open>fs5\<close> is \<open>fs4\<close> after a file \<open>h\<close> of 10 bytes has been created,
  which takes the block that \<open>f\<close> had. \<open>fragmented\<close> is a pool in which
  only the blocks 0 and 2 are free. \<open>undercounted\<close> is the same pool with a counter
  that claims that no block is used; no operation leads to it, and it serves to run
  the path of \<open>create_file\<close> on which the allocation stays partial.
\<close>

definition fs0 :: FileSystem where
  "fs0 = init_filesystem zero_storage"

definition fs1 :: FileSystem where
  "fs1 = snd (create_file fs0 (Some ''f'') 10)"

definition fs2 :: FileSystem where
  "fs2 = snd (write_file fs1 (Some ''f'') 0 (Some ''0123456789''))"

definition fs3 :: FileSystem where
  "fs3 = snd (create_file fs2 (Some ''g'') 600)"

definition fs4 :: FileSystem where
  "fs4 = snd (delete_file fs2 (Some ''f''))"

definition fs5 :: FileSystem where
  "fs5 = snd (create_file fs4 (Some ''h'') 10)"

definition fragmented :: FileSystem where
  "fragmented = zero_storage\<lparr>block_map := (\<lambda>b. b \<noteq> 0 \<and> b \<noteq> 2), used_blocks := 2046\<rparr>"

definition undercounted :: FileSystem where
  "undercounted = fragmented\<lparr>used_blocks := 0\<rparr>"

section \<open>Auxiliary lemmas\<close>

subsection \<open>Arithmetic of \<open>size_t\<close>, array loops and the loops of the allocator\<close>

lemma MAX_BLOCKS_eq: "MAX_BLOCKS = 2048"
  by (simp add: MAX_BLOCKS_def MAX_STORAGE_def BLOCK_SIZE_def)

lemma size_add_small: "a + b < SIZE_MOD \<Longrightarrow> size_add a b = a + b"
  by (simp add: size_add_def)

lemma size_sub_small: "b \<le> a \<Longrightarrow> a < SIZE_MOD \<Longrightarrow> size_sub a b = a - b"
proof -
  assume h: "b \<le> a" "a < SIZE_MOD"
  then have b: "b mod SIZE_MOD = b" by simp
  have "a + (SIZE_MOD - b) = (a - b) + SIZE_MOD"
    using h by simp
  then have "(a + (SIZE_MOD - b)) mod SIZE_MOD = (a - b) mod SIZE_MOD"
    by (metis mod_add_self2)
  then show ?thesis using h b by (simp add: size_sub_def)
qed

lemma fold_upd_upt:
  "fold (\<lambda>i f. f(i := h i (f i))) [0..<n] f0 = (\<lambda>b. if b < n then h b (f0 b) else f0 b)"
proof (induction n)
  case 0
  show ?case by simp
next
  case (Suc n)
  have "fold (\<lambda>i f. f(i := h i (f i))) [0..<Suc n] f0
          = (\<lambda>f. f(n := h n (f n))) (fold (\<lambda>i f. f(i := h i (f i))) [0..<n] f0)"
    by simp
  also have "\<dots> = (\<lambda>b. if b < Suc n then h b (f0 b) else f0 b)"
    unfolding Suc by (auto simp: fun_eq_iff)
  finally show ?case .
qed

lemma clear_row: "fold (\<lambda>p row. row(p := NUL)) [0..<n] r = (\<lambda>p. if p < n then NUL else r p)"
  using fold_upd_upt[where h="\<lambda>i x. NUL"] by simp

lemma blocks_init:
  "blocks (init_filesystem s) b p = (if b < MAX_BLOCKS \<and> p < BLOCK_SIZE then NUL else blocks s b p)"
  unfolding init_filesystem_def
  using fold_upd_upt[where h="\<lambda>i r. (\<lambda>p. if p < BLOCK_SIZE then NUL else r p)" and n=MAX_BLOCKS and ?f0.0="blocks s"]
  by (simp add: clear_row)

lemma block_map_init:
  "block_map (init_filesystem s) b = (if b < MAX_BLOCKS then False else block_map s b)"
  unfolding init_filesystem_def
  using fold_upd_upt[where h="\<lambda>i x. False" and n=MAX_BLOCKS and ?f0.0="block_map s"]
  by simp

lemma file_table_init:
  "file_table (init_filesystem s) i =
     (if i < MAX_FILES then (file_table s i)\<lparr>in_use := False, filename := [], size_fe := 0, num_blocks := 0\<rparr>
      else file_table s i)"
  unfolding init_filesystem_def
  using fold_upd_upt[where h="\<lambda>i e. e\<lparr>in_use := False, filename := [], size_fe := 0, num_blocks := 0\<rparr>" and n=MAX_FILES and ?f0.0="file_table s"]
  by simp

lemma counters_init:
  "num_files (init_filesystem s) = 0" "used_blocks (init_filesystem s) = 0"
  "total_storage (init_filesystem s) = 0"
  by (simp_all add: init_filesystem_def)

declare check_sequence.simps [simp del] alloc_consecutive.simps [simp del]
  alloc_scattered.simps [simp del]

lemma check_sequence_iff:
  "check_sequence bm i n j = (\<forall>k. j \<le> k \<and> k < n \<longrightarrow> i + k < MAX_BLOCKS \<and> \<not> bm (i + k))"
proof (induction bm i n j rule: check_sequence.induct)
  case (1 bm i n j)
  show ?case
  proof (cases "j < n")
    case False
    then show ?thesis by (subst check_sequence.simps) auto
  next
    case True
    show ?thesis
    proof (cases "i + j \<ge> MAX_BLOCKS \<or> bm (i + j)")
      case True
      with \<open>j < n\<close> show ?thesis
        by (subst check_sequence.simps) (auto simp: not_le)
    next
      case False
      have "check_sequence bm i n j = check_sequence bm i n (j + 1)"
        using False \<open>j < n\<close> by (subst check_sequence.simps) simp
      also have "\<dots> = (\<forall>k. j + 1 \<le> k \<and> k < n \<longrightarrow> i + k < MAX_BLOCKS \<and> \<not> bm (i + k))"
        using "1.IH" \<open>j < n\<close> False by simp
      also have "\<dots> = (\<forall>k. j \<le> k \<and> k < n \<longrightarrow> i + k < MAX_BLOCKS \<and> \<not> bm (i + k))"
      proof -
        have "\<And>k. (j \<le> k) = (k = j \<or> j + 1 \<le> k)" by auto
        then show ?thesis using False \<open>j < n\<close> by (auto simp: not_le)
      qed
      finally show ?thesis .
    qed
  qed
qed

lemma assign_sequence_eq:
  "assign_sequence i n (bm, bl) =
     ((\<lambda>b. if i \<le> b \<and> b < i + n then True else bm b), (\<lambda>j. if j < n then i + j else bl j))"
  unfolding assign_sequence_def
proof (induction n)
  case 0
  show ?case by simp
next
  case (Suc n)
  have "fold (\<lambda>j (bm, bl). (bm(i + j := True), bl(j := i + j))) [0..<Suc n] (bm, bl)
          = (\<lambda>(bm, bl). (bm(i + n := True), bl(n := i + n)))
              (fold (\<lambda>j (bm, bl). (bm(i + j := True), bl(j := i + j))) [0..<n] (bm, bl))"
    by simp
  also have "\<dots> = ((\<lambda>b. if i \<le> b \<and> b < i + Suc n then True else bm b),
                     (\<lambda>j. if j < Suc n then i + j else bl j))"
    unfolding Suc by (auto simp: fun_eq_iff)
  finally show ?case .
qed

subsection \<open>The two search loops of \<open>allocate_blocks\<close>\<close>

lemma alloc_consecutive_eq:
  "0 < n \<Longrightarrow> alloc_consecutive s n bl i =
     (case find (\<lambda>i. free_run (block_map s) i n) [i..<MAX_BLOCKS] of
        None \<Rightarrow> None
      | Some i0 \<Rightarrow> Some (n, store_list bl 0 [i0..<i0 + n],
                         s\<lparr>block_map := mark (block_map s) [i0..<i0 + n],
                           used_blocks := size_add (used_blocks s) n\<rparr>))"
proof (induction s n bl i rule: alloc_consecutive.induct)
  case (1 s n bl i)
  have run: "(\<not> block_map s i \<and> check_sequence (block_map s) i n 0) = free_run (block_map s) i n"
  proof -
    have "free_run (block_map s) i n \<Longrightarrow> \<not> block_map s i"
      using \<open>0 < n\<close> unfolding free_run_def by (drule_tac x = 0 in bspec) auto
    then show ?thesis
      by (auto simp: check_sequence_iff free_run_def)
  qed
  show ?case
  proof (cases "i < MAX_BLOCKS")
    case False
    then show ?thesis by (subst alloc_consecutive.simps) simp
  next
    case True
    then have upt: "[i..<MAX_BLOCKS] = i # [i + 1..<MAX_BLOCKS]"
      by (simp add: upt_conv_Cons)
    show ?thesis
    proof (cases "free_run (block_map s) i n")
      case True
      have "store_list bl 0 [i..<i + n] = (\<lambda>j. if j < n then i + j else bl j)"
        by (auto simp: store_list_def fun_eq_iff)
      moreover have "mark (block_map s) [i..<i + n] = (\<lambda>b. if i \<le> b \<and> b < i + n then True else block_map s b)"
        by (auto simp: mark_def fun_eq_iff)
      ultimately show ?thesis
        using True run \<open>i < MAX_BLOCKS\<close> \<open>0 < n\<close>
        by (subst alloc_consecutive.simps) (simp add: upt assign_sequence_eq)
    next
      case False
      have "alloc_consecutive s n bl i = alloc_consecutive s n bl (i + 1)"
        using False run \<open>i < MAX_BLOCKS\<close> \<open>0 < n\<close>
        by (subst alloc_consecutive.simps) auto
      then show ?thesis
        using "1.IH" False run \<open>i < MAX_BLOCKS\<close> \<open>0 < n\<close> by (simp add: upt)
    qed
  qed
qed

lemma free_from_Cons:
  "i < MAX_BLOCKS \<Longrightarrow> free_from bm i = (if bm i then [] else [i]) @ free_from bm (i + 1)"
  by (simp add: free_from_def upt_conv_Cons)

lemma free_from_upd: "free_from (bm(i := v)) (i + 1) = free_from bm (i + 1)"
  unfolding free_from_def by (rule filter_cong) auto

lemma free_from_ge: "b \<in> set (free_from bm i) \<Longrightarrow> i \<le> b \<and> b < MAX_BLOCKS \<and> \<not> bm b"
  by (auto simp: free_from_def)

lemma alloc_scattered_eq:
  "a \<le> n \<Longrightarrow> alloc_scattered s n bl i a =
     (let F = take (n - a) (free_from (block_map s) i) in
      (a + length F, store_list bl a F,
       s\<lparr>block_map := mark (block_map s) F,
         used_blocks := ((\<lambda>u. size_add u 1) ^^ length F) (used_blocks s)\<rparr>))"
proof (induction s n bl i a rule: alloc_scattered.induct)
  case (1 s n bl i a)
  show ?case
  proof (cases "i < MAX_BLOCKS \<and> a < n")
    case False
    then have F: "take (n - a) (free_from (block_map s) i) = []"
      by (auto simp: free_from_def)
    have "alloc_scattered s n bl i a = (a, bl, s)"
      using False by (subst alloc_scattered.simps) auto
    then show ?thesis
      unfolding F Let_def by (auto simp: store_list_def mark_def fun_eq_iff)
  next
    case True
    show ?thesis
    proof (cases "block_map s i")
      case True
      have "alloc_scattered s n bl i a = alloc_scattered s n bl (i + 1) a"
        using True \<open>i < MAX_BLOCKS \<and> a < n\<close> by (subst alloc_scattered.simps) simp
      then show ?thesis
        using "1.IH"(2) True \<open>i < MAX_BLOCKS \<and> a < n\<close> "1.prems" by (simp add: free_from_Cons)
    next
      case False
      let ?s' = "s\<lparr>block_map := (block_map s)(i := True), used_blocks := size_add (used_blocks s) 1\<rparr>"
      let ?F' = "take (n - (a + 1)) (free_from (block_map s) (i + 1))"
      have F: "take (n - a) (free_from (block_map s) i) = i # ?F'"
        using False True by (simp add: free_from_Cons take_Cons')
      have ni: "i \<notin> set ?F'"
        using free_from_ge[of i "block_map s" "i + 1"] by (auto dest: in_set_takeD)
      have step: "alloc_scattered s n bl i a = alloc_scattered ?s' n (bl(a := i)) (i + 1) (a + 1)"
        using False True by (subst alloc_scattered.simps) simp
      have ih: "alloc_scattered ?s' n (bl(a := i)) (i + 1) (a + 1) =
         (a + 1 + length ?F', store_list (bl(a := i)) (a + 1) ?F',
          ?s'\<lparr>block_map := mark (block_map ?s') ?F',
              used_blocks := ((\<lambda>u. size_add u 1) ^^ length ?F') (used_blocks ?s')\<rparr>)"
      proof -
        have "a + 1 \<le> n" using True by simp
        have bm': "block_map ?s' = (block_map s)(i := True)" by simp
        from "1.IH"(1)[OF True False \<open>a + 1 \<le> n\<close>] show ?thesis
          unfolding Let_def bm' free_from_upd .
      qed
      have sl: "store_list (bl(a := i)) (a + 1) ?F' = store_list bl a (i # ?F')"
        by (auto simp: store_list_def fun_eq_iff nth_Cons')
      have mk: "mark ((block_map s)(i := True)) ?F' = mark (block_map s) (i # ?F')"
        by (auto simp: mark_def fun_eq_iff)
      have up: "((\<lambda>u. size_add u 1) ^^ length ?F') (size_add (used_blocks s) 1)
                  = ((\<lambda>u. size_add u 1) ^^ length (i # ?F')) (used_blocks s)"
        using funpow_swap1[of "\<lambda>u. size_add u 1" "length ?F'" "used_blocks s"] by simp
      show ?thesis
        unfolding step ih F Let_def using sl mk up by simp
    qed
  qed
qed

subsection \<open>\<open>allocate_blocks\<close> and \<open>free_blocks\<close> in closed form\<close>

lemma occupied_free_count: "occupied_count s + free_count s = MAX_BLOCKS"
  unfolding occupied_count_def free_count_def
  using sum_length_filter_compl[of "block_map s" "[0..<MAX_BLOCKS]"] by simp

lemma SIZE_MOD_big: "2 * MAX_BLOCKS < SIZE_MOD" "MAX_BLOCKS < SIZE_MOD"
  by (simp_all add: MAX_BLOCKS_eq SIZE_MOD_def)

lemma funpow_size_add: "u + k < SIZE_MOD \<Longrightarrow> ((\<lambda>u. size_add u 1) ^^ k) u = u + k"
  by (induction k) (simp_all add: size_add_small)

lemma funpow_size_sub: "k \<le> u \<Longrightarrow> u < SIZE_MOD \<Longrightarrow> ((\<lambda>u. size_sub u 1) ^^ k) u = u - k"
  by (induction k) (simp_all add: size_sub_small)

lemma alloc_choice_props:
  assumes "0 < n" "n \<le> length (filter (\<lambda>b. \<not> bm b) [0..<MAX_BLOCKS])"
  shows "length (alloc_choice bm n) = n"
    and "distinct (alloc_choice bm n)"
    and "sorted (alloc_choice bm n)"
    and "\<forall>b \<in> set (alloc_choice bm n). b < MAX_BLOCKS \<and> \<not> bm b"
proof -
  show "length (alloc_choice bm n) = n"
    using assms by (simp add: alloc_choice_def first_free_def split: option.splits)
  show "distinct (alloc_choice bm n)"
    by (simp add: alloc_choice_def first_free_def split: option.splits)
  show "sorted (alloc_choice bm n)"
  proof -
    have "sorted (filter (\<lambda>b. \<not> bm b) [0..<MAX_BLOCKS])"
      by (rule sorted_wrt_filter) simp
    then have "sorted (take n (filter (\<lambda>b. \<not> bm b) [0..<MAX_BLOCKS]))"
      by (rule sorted_wrt_take)
    then show ?thesis
      by (simp add: alloc_choice_def first_free_def split: option.splits)
  qed
  show "\<forall>b \<in> set (alloc_choice bm n). b < MAX_BLOCKS \<and> \<not> bm b"
  proof (cases "first_run bm n")
    case None
    then show ?thesis
      by (auto simp: alloc_choice_def first_free_def dest!: in_set_takeD)
  next
    case (Some i)
    then have "free_run bm i n"
      unfolding first_run_def by (auto simp: find_Some_iff)
    then have "\<And>b. i \<le> b \<Longrightarrow> b < i + n \<Longrightarrow> b < MAX_BLOCKS \<and> \<not> bm b"
    proof -
      fix b assume "i \<le> b" "b < i + n"
      then have "b - i \<in> {0..<n}" "i + (b - i) = b" by auto
      with \<open>free_run bm i n\<close> show "b < MAX_BLOCKS \<and> \<not> bm b"
        unfolding free_run_def by metis
    qed
    with Some show ?thesis by (auto simp: alloc_choice_def)
  qed
qed

lemma allocate_blocks_ok:
  assumes "0 < n" "used_blocks s + n \<le> MAX_BLOCKS" "n \<le> free_count s"
  shows "allocate_blocks s n bl =
           (n, store_list bl 0 (alloc_choice (block_map s) n),
            s\<lparr>block_map := mark (block_map s) (alloc_choice (block_map s) n),
              used_blocks := used_blocks s + n\<rparr>)"
proof -
  have n: "n \<le> MAX_BLOCKS" "\<not> (n = 0 \<or> n > MAX_BLOCKS)" using assms by auto
  have small: "used_blocks s + n < SIZE_MOD"
    using assms(2) SIZE_MOD_big by linarith
  then have sa: "size_add (used_blocks s) n = used_blocks s + n"
    by (rule size_add_small)
  show ?thesis
  proof (cases "first_run (block_map s) n")
    case (Some i)
    then show ?thesis
      using n assms sa alloc_consecutive_eq[OF \<open>0 < n\<close>, of s bl 0]
      by (simp add: allocate_blocks_def alloc_choice_def first_run_def)
  next
    case None
    let ?F = "take n (free_from (block_map s) 0)"
    have len: "length ?F = n"
      using assms(3) by (simp add: free_from_def free_count_def)
    have "allocate_blocks s n bl = alloc_scattered s n bl 0 0"
      using None n assms sa alloc_consecutive_eq[OF \<open>0 < n\<close>, of s bl 0]
      by (simp add: allocate_blocks_def first_run_def)
    also have "\<dots> = (length ?F, store_list bl 0 ?F,
         s\<lparr>block_map := mark (block_map s) ?F,
           used_blocks := ((\<lambda>u. size_add u 1) ^^ length ?F) (used_blocks s)\<rparr>)"
      using alloc_scattered_eq[of 0 n s bl 0] by (simp add: Let_def)
    also have "\<dots> = (n, store_list bl 0 ?F,
         s\<lparr>block_map := mark (block_map s) ?F, used_blocks := used_blocks s + n\<rparr>)"
      unfolding len using funpow_size_add[OF small] by simp
    finally show ?thesis
      using None by (simp add: alloc_choice_def first_free_def free_from_def)
  qed
qed

lemma finite_freed: "finite (freed s n bl)"
proof -
  have "freed s n bl \<subseteq> bl ` {..<n}" by (auto simp: freed_def)
  then show ?thesis by (rule finite_subset) simp
qed

lemma freed_Suc:
  "freed s (Suc n) bl =
     freed s n bl \<union> (if bl n < MAX_BLOCKS \<and> block_map s (bl n) then {bl n} else {})"
  by (auto simp: freed_def less_Suc_eq)

lemma free_blocks_eq:
  "free_blocks s n bl =
     s\<lparr>block_map := (\<lambda>b. if b \<in> freed s n bl then False else block_map s b),
       blocks := (\<lambda>b. if b \<in> freed s n bl then clear_block (blocks s b) else blocks s b),
       used_blocks := ((\<lambda>u. size_sub u 1) ^^ card (freed s n bl)) (used_blocks s)\<rparr>"
proof (induction n)
  case 0
  have "freed s 0 bl = {}" by (simp add: freed_def)
  then show ?case by (simp add: free_blocks_def)
next
  case (Suc n)
  let ?A = "freed s n bl"
  let ?sn = "free_blocks s n bl"
  have step: "free_blocks s (Suc n) bl = free_block bl n ?sn"
    by (simp add: free_blocks_def)
  have bm_n: "block_map ?sn = (\<lambda>b. if b \<in> ?A then False else block_map s b)"
    and bl_n: "blocks ?sn = (\<lambda>b. if b \<in> ?A then clear_block (blocks s b) else blocks s b)"
    and us_n: "used_blocks ?sn = ((\<lambda>u. size_sub u 1) ^^ card ?A) (used_blocks s)"
    by (simp_all add: Suc)
  show ?case
  proof (cases "bl n < MAX_BLOCKS \<and> block_map s (bl n) \<and> bl n \<notin> ?A")
    case True
    then have A': "freed s (Suc n) bl = insert (bl n) ?A"
      by (simp add: freed_Suc)
    have card': "card (freed s (Suc n) bl) = Suc (card ?A)"
      unfolding A' using True finite_freed by simp
    have "free_block bl n ?sn =
        ?sn\<lparr>block_map := (block_map ?sn)(bl n := False),
            blocks := (blocks ?sn)(bl n := clear_block (blocks ?sn (bl n))),
            used_blocks := size_sub (used_blocks ?sn) 1\<rparr>"
      using True by (simp add: free_block_def bm_n clear_row clear_block_def)
    also have "\<dots> = s\<lparr>block_map := (\<lambda>b. if b \<in> insert (bl n) ?A then False else block_map s b),
       blocks := (\<lambda>b. if b \<in> insert (bl n) ?A then clear_block (blocks s b) else blocks s b),
       used_blocks := size_sub (((\<lambda>u. size_sub u 1) ^^ card ?A) (used_blocks s)) 1\<rparr>"
      using True by (intro FileSystem.equality) (auto simp: bm_n bl_n us_n Suc fun_eq_iff)
    finally show ?thesis
      unfolding step A' using card' A' by simp
  next
    case False
    then have A': "freed s (Suc n) bl = ?A"
      by (auto simp: freed_Suc)
    have "free_block bl n ?sn = ?sn"
      using False by (auto simp: free_block_def bm_n)
    then show ?thesis
      unfolding step A' by (simp add: Suc)
  qed
qed

subsection \<open>Recounts as sums and cardinalities; the initial state\<close>

lemma sum_list_upt_conv: "sum_list (map g [0..<N]) = sum g {..<N}"
  by (simp add: interv_sum_list_conv_sum_set_nat lessThan_atLeast0)

lemma length_filter_upt_conv: "length (filter P [0..<N]) = card {i. i < N \<and> P i}"
proof -
  have "card (set (filter P [0..<N])) = length (filter P [0..<N])"
    by (rule distinct_card) simp
  moreover have "set (filter P [0..<N]) = {i. i < N \<and> P i}" by auto
  ultimately show ?thesis by simp
qed

lemma sum_upd:
  assumes "i < (N::nat)" "\<And>j. j < N \<Longrightarrow> j \<noteq> i \<Longrightarrow> g' j = g j"
  shows "sum g' {..<N} + g i = sum g {..<N} + (g' i :: nat)"
proof -
  have 1: "sum g' {..<N} = g' i + sum g' ({..<N} - {i})"
    using assms(1) by (intro sum.remove) auto
  have 2: "sum g {..<N} = g i + sum g ({..<N} - {i})"
    using assms(1) by (intro sum.remove) auto
  have "sum g' ({..<N} - {i}) = sum g ({..<N} - {i})"
    using assms(2) by (intro sum.cong) auto
  with 1 2 show ?thesis by simp
qed

lemma sum_list_bound:
  "(\<And>x. x \<in> set xs \<Longrightarrow> f x \<le> (c::nat)) \<Longrightarrow> sum_list (map f xs) \<le> length xs * c"
  by (induction xs) (auto simp: add_mono)

lemma occupied_count_card: "occupied_count s = card {b. b < MAX_BLOCKS \<and> block_map s b}"
  by (simp add: occupied_count_def length_filter_upt_conv)

lemma live_count_card: "live_count s = card {i. i < MAX_FILES \<and> in_use (file_table s i)}"
  by (simp add: live_count_def length_filter_upt_conv)

lemma occupied_count_le: "occupied_count s \<le> MAX_BLOCKS"
  using occupied_free_count[of s] by simp

lemma live_count_le: "live_count s \<le> MAX_FILES"
  unfolding live_count_def using length_filter_le[of _ "[0..<MAX_FILES]"] by simp

lemma storage_sum_le: "files_wf s \<Longrightarrow> storage_sum s \<le> MAX_FILES * MAX_FILE_SIZE"
  unfolding storage_sum_def
  using sum_list_bound[of "[0..<MAX_FILES]"
      "\<lambda>i. if in_use (file_table s i) then size_fe (file_table s i) else 0" MAX_FILE_SIZE]
  by (auto simp: files_wf_def)

lemma fs_inv_init: "fs_inv (init_filesystem s0)"
proof -
  let ?s = "init_filesystem s0"
  have nu: "\<And>i. i < MAX_FILES \<Longrightarrow> \<not> in_use (file_table ?s i)"
    by (simp add: file_table_init)
  have nb: "\<And>b. b < MAX_BLOCKS \<Longrightarrow> \<not> block_map ?s b"
    by (simp add: block_map_init)
  have "blocks_sum ?s = 0" "storage_sum ?s = 0"
    using nu by (simp_all add: blocks_sum_def storage_sum_def)
  moreover have "live_count ?s = 0"
    using nu by (simp add: live_count_def filter_empty_conv)
  moreover have "occupied_count ?s = 0"
    using nb by (simp add: occupied_count_def filter_empty_conv)
  ultimately have "counters_agree ?s"
    by (simp add: counters_agree_def counters_init)
  moreover have "blocks_exclusive ?s" "blocks_occupied ?s" "blocks_distinct ?s" "files_wf ?s"
    using nu by (simp_all add: blocks_exclusive_def blocks_occupied_def blocks_distinct_def
        files_wf_def)
  moreover have "free_zero ?s"
    by (simp add: free_zero_def blocks_init)
  ultimately show ?thesis by (simp add: fs_inv_def)
qed

subsection \<open>The cases of \<open>create_file\<close>\<close>

lemma blocks_needed_bounds:
  "0 < sz \<Longrightarrow> sz \<le> MAX_FILE_SIZE \<Longrightarrow> 0 < blocks_needed sz \<and> blocks_needed sz \<le> MAX_BLOCKS"
  unfolding blocks_needed_def MAX_FILE_SIZE_def BLOCK_SIZE_def MAX_BLOCKS_eq by linarith

lemma find_free_slot:
  "find (\<lambda>i. \<not> in_use (file_table s i)) [0..<MAX_FILES] = Some fi \<Longrightarrow>
     fi < MAX_FILES \<and> \<not> in_use (file_table s fi)"
  by (auto simp: find_Some_iff)

lemma create_file_cases:
  assumes "counters_agree s" "files_wf s"
  shows "(\<exists>e. e \<noteq> AllocFailed \<and> create_file s fname sz = (Inl e, s)) \<or>
         (\<exists>nm fi. fname = Some nm \<and> strlen nm \<noteq> 0 \<and> 0 < sz \<and> sz \<le> MAX_FILE_SIZE \<and>
            find_file s nm = None \<and>
            find (\<lambda>i. \<not> in_use (file_table s i)) [0..<MAX_FILES] = Some fi \<and>
            used_blocks s + blocks_needed sz \<le> MAX_BLOCKS \<and>
            create_file s fname sz = (Inr (), create_result s nm sz fi))"
proof (cases fname)
  case None
  then show ?thesis by (simp add: create_file_def)
next
  case (Some nm)
  show ?thesis
  proof (cases "strlen nm = 0 \<or> sz = 0 \<or> sz > MAX_FILE_SIZE \<or> find_file s nm \<noteq> None
                 \<or> num_files s \<ge> MAX_FILES")
    case True
    then show ?thesis using Some by (auto simp: create_file_def)
  next
    case False
    then have g: "strlen nm \<noteq> 0" "0 < sz" "sz \<le> MAX_FILE_SIZE" "find_file s nm = None"
      "num_files s < MAX_FILES" by auto
    let ?nb = "blocks_needed sz"
    have nb: "0 < ?nb" "?nb \<le> MAX_BLOCKS" using blocks_needed_bounds g by auto
    have used: "used_blocks s = occupied_count s" using assms(1) by (simp add: counters_agree_def)
    then have "used_blocks s \<le> MAX_BLOCKS" using occupied_count_le[of s] by simp
    then have "used_blocks s + ?nb < SIZE_MOD" using nb SIZE_MOD_big by linarith
    then have sa: "size_add (used_blocks s) ?nb = used_blocks s + ?nb" by (rule size_add_small)
    show ?thesis
    proof (cases "used_blocks s + ?nb > MAX_BLOCKS")
      case True
      then show ?thesis
        using Some g sa by (auto simp: create_file_def Let_def blocks_needed_def)
    next
      case fits: False
      show ?thesis
      proof (cases "find (\<lambda>i. \<not> in_use (file_table s i)) [0..<MAX_FILES]")
        case None
        then show ?thesis
          using Some g sa fits by (auto simp: create_file_def Let_def blocks_needed_def)
      next
        case (Some fi)
        have "?nb \<le> free_count s"
          using fits used occupied_free_count[of s] by simp
        then have al: "allocate_blocks s ?nb (blocks_fe (file_table s fi)) =
           (?nb, store_list (blocks_fe (file_table s fi)) 0 (alloc_choice (block_map s) ?nb),
            s\<lparr>block_map := mark (block_map s) (alloc_choice (block_map s) ?nb),
              used_blocks := used_blocks s + ?nb\<rparr>)"
          using allocate_blocks_ok[OF nb(1)] fits by simp
        have "num_files s + 1 < SIZE_MOD"
          using g(5) by (simp add: MAX_FILES_def SIZE_MOD_def)
        then have nf: "size_add (num_files s) 1 = num_files s + 1" by (rule size_add_small)
        have "total_storage s \<le> MAX_FILES * MAX_FILE_SIZE"
          using assms storage_sum_le by (simp add: counters_agree_def)
        then have "total_storage s + sz < SIZE_MOD"
          using g(3) by (simp add: MAX_FILES_def MAX_FILE_SIZE_def SIZE_MOD_def)
        then have ts: "size_add (total_storage s) sz = total_storage s + sz"
          by (rule size_add_small)
        have "create_file s fname sz = (Inr (), create_result s nm sz fi)"
          using \<open>fname = Some nm\<close> g sa fits Some al[unfolded blocks_needed_def] nf ts
          by (simp add: create_file_def Let_def blocks_needed_def create_result_def)
        then show ?thesis
          using \<open>fname = Some nm\<close> g Some fits by auto
      qed
    qed
  qed
qed

subsection \<open>\<open>create_file\<close> keeps the invariant\<close>

lemma blocks_occupiedD:
  "blocks_occupied s \<Longrightarrow> i < MAX_FILES \<Longrightarrow> in_use (file_table s i) \<Longrightarrow>
   k < num_blocks (file_table s i) \<Longrightarrow>
   blocks_fe (file_table s i) k < MAX_BLOCKS \<and> block_map s (blocks_fe (file_table s i) k)"
  by (simp add: blocks_occupied_def)

lemma fs_inv_create_result:
  assumes inv: "fs_inv s"
    and sz: "0 < sz" "sz \<le> MAX_FILE_SIZE"
    and fi: "fi < MAX_FILES" "\<not> in_use (file_table s fi)"
    and fits: "used_blocks s + blocks_needed sz \<le> MAX_BLOCKS"
  shows "fs_inv (create_result s nm sz fi)"
proof -
  let ?nb = "blocks_needed sz"
  let ?L = "alloc_choice (block_map s) ?nb"
  let ?s' = "create_result s nm sz fi"
  have ca: "counters_agree s" and ex: "blocks_exclusive s" and oc: "blocks_occupied s"
    and di: "blocks_distinct s" and wf: "files_wf s" and fz: "free_zero s"
    using inv by (simp_all add: fs_inv_def)
  have nb: "0 < ?nb" "?nb \<le> MAX_BLOCKS" using blocks_needed_bounds sz by auto
  have used: "used_blocks s = occupied_count s" using ca by (simp add: counters_agree_def)
  have "?nb \<le> free_count s" using fits used occupied_free_count[of s] by simp
  then have fc: "?nb \<le> length (filter (\<lambda>b. \<not> block_map s b) [0..<MAX_BLOCKS])"
    by (simp add: free_count_def)
  note L = alloc_choice_props[OF nb(1) fc]
  have ft_fi: "file_table ?s' fi = (file_table s fi)
            \<lparr>blocks_fe := store_list (blocks_fe (file_table s fi)) 0 ?L,
             filename := take (MAX_FILENAME - 1) (c_str nm),
             size_fe := sz, num_blocks := ?nb, in_use := True\<rparr>"
    by (simp add: create_result_def)
  have ft_other: "\<And>i. i \<noteq> fi \<Longrightarrow> file_table ?s' i = file_table s i"
    by (simp add: create_result_def)
  have bm': "block_map ?s' = mark (block_map s) ?L"
    by (simp add: create_result_def)
  have bl': "blocks ?s' = blocks s" by (simp add: create_result_def)
  have new_blk: "\<And>k. k < ?nb \<Longrightarrow> blocks_fe (file_table ?s' fi) k = ?L ! k"
    using L(1) by (simp add: ft_fi store_list_def)
  have new_in: "\<And>k. k < ?nb \<Longrightarrow> ?L ! k \<in> set ?L" using L(1) by simp
  have mono: "\<And>b. block_map s b \<Longrightarrow> block_map ?s' b" by (simp add: bm' mark_def)

  have "blocks_occupied ?s'"
    unfolding blocks_occupied_def
  proof (intro allI impI)
    fix i k assume h: "i < MAX_FILES" "in_use (file_table ?s' i)" "k < num_blocks (file_table ?s' i)"
    show "blocks_fe (file_table ?s' i) k < MAX_BLOCKS \<and> block_map ?s' (blocks_fe (file_table ?s' i) k)"
    proof (cases "i = fi")
      case True
      then have "k < ?nb" using h by (simp add: ft_fi)
      then show ?thesis using True L(4) new_blk new_in by (simp add: bm' mark_def)
    next
      case False
      then show ?thesis using h oc mono by (simp add: ft_other blocks_occupied_def)
    qed
  qed
  moreover have "blocks_exclusive ?s'"
    unfolding blocks_exclusive_def
  proof (intro allI impI)
    fix i j k l
    assume h: "i < MAX_FILES" "j < MAX_FILES"
      "in_use (file_table ?s' i) \<and> in_use (file_table ?s' j) \<and> i \<noteq> j"
      "k < num_blocks (file_table ?s' i)" "l < num_blocks (file_table ?s' j)"
    have fresh: "\<And>i k l. i < MAX_FILES \<Longrightarrow> i \<noteq> fi \<Longrightarrow> in_use (file_table s i) \<Longrightarrow>
        k < num_blocks (file_table s i) \<Longrightarrow> l < ?nb \<Longrightarrow> blocks_fe (file_table s i) k \<noteq> ?L ! l"
    proof
      fix i k l
      assume a: "i < MAX_FILES" "in_use (file_table s i)" "k < num_blocks (file_table s i)"
        "l < ?nb" "blocks_fe (file_table s i) k = ?L ! l"
      then have "block_map s (?L ! l)" using blocks_occupiedD[OF oc a(1,2,3)] by simp
      moreover have "\<not> block_map s (?L ! l)" using L(4) new_in a(4) by blast
      ultimately show False by simp
    qed
    show "blocks_fe (file_table ?s' i) k \<noteq> blocks_fe (file_table ?s' j) l"
    proof (cases "i = fi")
      case True
      then have j: "j \<noteq> fi" using h by simp
      have "in_use (file_table s j)" "l < num_blocks (file_table s j)"
        using h j by (simp_all add: ft_other)
      moreover have "k < ?nb" using h True by (simp add: ft_fi)
      ultimately have "blocks_fe (file_table s j) l \<noteq> ?L ! k"
        using fresh[of j l k] h j by simp
      moreover have "blocks_fe (file_table ?s' i) k = ?L ! k"
        using True \<open>k < ?nb\<close> new_blk by simp
      moreover have "blocks_fe (file_table ?s' j) l = blocks_fe (file_table s j) l"
        using j by (simp add: ft_other)
      ultimately show ?thesis by simp
    next
      case False
      show ?thesis
      proof (cases "j = fi")
        case True
        have "in_use (file_table s i)" "k < num_blocks (file_table s i)"
          using h False by (simp_all add: ft_other)
        moreover have "l < ?nb" using h True by (simp add: ft_fi)
        ultimately have "blocks_fe (file_table s i) k \<noteq> ?L ! l"
          using fresh[of i k l] h False by simp
        moreover have "blocks_fe (file_table ?s' j) l = ?L ! l"
          using True \<open>l < ?nb\<close> new_blk by simp
        moreover have "blocks_fe (file_table ?s' i) k = blocks_fe (file_table s i) k"
          using False by (simp add: ft_other)
        ultimately show ?thesis by simp
      next
        case jf: False
        then show ?thesis using False h ex by (simp add: ft_other blocks_exclusive_def)
      qed
    qed
  qed
  moreover have "blocks_distinct ?s'"
    unfolding blocks_distinct_def
  proof (intro allI impI)
    fix i assume h: "i < MAX_FILES" "in_use (file_table ?s' i)"
    show "inj_on (blocks_fe (file_table ?s' i)) {..<num_blocks (file_table ?s' i)}"
    proof (cases "i = fi")
      case True
      have "inj_on (blocks_fe (file_table ?s' fi)) {..<?nb}"
        using L(1,2) new_blk by (auto simp: inj_on_def nth_eq_iff_index_eq)
      then show ?thesis using True by (simp add: ft_fi)
    next
      case False
      then show ?thesis using h di by (simp add: ft_other blocks_distinct_def)
    qed
  qed
  moreover have "files_wf ?s'"
    unfolding files_wf_def
  proof (intro allI impI)
    fix i assume h: "i < MAX_FILES" "in_use (file_table ?s' i)"
    show "0 < size_fe (file_table ?s' i) \<and> size_fe (file_table ?s' i) \<le> MAX_FILE_SIZE \<and>
        num_blocks (file_table ?s' i) = (size_fe (file_table ?s' i) + BLOCK_SIZE - 1) div BLOCK_SIZE"
    proof (cases "i = fi")
      case True
      then show ?thesis using sz by (simp add: ft_fi blocks_needed_def)
    next
      case False
      then show ?thesis using h wf by (simp add: ft_other files_wf_def)
    qed
  qed
  moreover have "free_zero ?s'"
    using fz mono by (auto simp: free_zero_def bl')
  moreover have "counters_agree ?s'"
  proof -
    have "blocks_sum ?s' + 0 = blocks_sum s + ?nb"
      unfolding blocks_sum_def sum_list_upt_conv
      using sum_upd[of fi MAX_FILES
          "\<lambda>i. if in_use (file_table ?s' i) then num_blocks (file_table ?s' i) else 0"
          "\<lambda>i. if in_use (file_table s i) then num_blocks (file_table s i) else 0"]
        fi by (simp add: ft_other) (simp add: ft_fi)
    moreover have "storage_sum ?s' + 0 = storage_sum s + sz"
      unfolding storage_sum_def sum_list_upt_conv
      using sum_upd[of fi MAX_FILES
          "\<lambda>i. if in_use (file_table ?s' i) then size_fe (file_table ?s' i) else 0"
          "\<lambda>i. if in_use (file_table s i) then size_fe (file_table s i) else 0"]
        fi by (simp add: ft_other) (simp add: ft_fi)
    moreover have "live_count ?s' = live_count s + 1"
    proof -
      have "{i. i < MAX_FILES \<and> in_use (file_table ?s' i)}
              = insert fi {i. i < MAX_FILES \<and> in_use (file_table s i)}"
      proof -
        have "\<And>i. in_use (file_table ?s' i) = (i = fi \<or> in_use (file_table s i))"
          using fi(2) ft_other by (case_tac "i = fi") (auto simp: ft_fi)
        then show ?thesis using fi(1) by auto
      qed
      moreover have "fi \<notin> {i. i < MAX_FILES \<and> in_use (file_table s i)}" using fi by simp
      ultimately show ?thesis by (simp add: live_count_card)
    qed
    moreover have "occupied_count ?s' = occupied_count s + ?nb"
    proof -
      have "{b. b < MAX_BLOCKS \<and> block_map ?s' b}
              = {b. b < MAX_BLOCKS \<and> block_map s b} \<union> set ?L"
        using L(4) by (auto simp: bm' mark_def)
      moreover have "{b. b < MAX_BLOCKS \<and> block_map s b} \<inter> set ?L = {}"
        using L(4) by auto
      moreover have "card (set ?L) = ?nb" using L(1,2) by (simp add: distinct_card)
      ultimately show ?thesis
        by (simp add: occupied_count_card card_Un_disjoint)
    qed
    moreover have "used_blocks ?s' = used_blocks s + ?nb" "num_files ?s' = num_files s + 1"
      "total_storage ?s' = total_storage s + sz"
      by (simp_all add: create_result_def)
    ultimately show ?thesis using ca by (simp add: counters_agree_def)
  qed
  ultimately show ?thesis by (simp add: fs_inv_def)
qed

subsection \<open>\<open>write_file\<close> keeps the invariant\<close>

declare write_loop.simps [simp del] read_loop.simps [simp del]

lemma find_file_Some:
  "find_file s nm = Some fi \<Longrightarrow>
     fi < MAX_FILES \<and> in_use (file_table s fi) \<and> c_str (filename (file_table s fi)) = c_str nm"
  by (auto simp: find_file_def find_Some_iff)

lemma write_loop_frame:
  "(\<And>k. cb \<le> k \<Longrightarrow> k < num_blocks fe \<Longrightarrow> blocks_fe fe k \<noteq> b) \<Longrightarrow>
     snd (write_loop fe d dl blks bw cb cp) b = blks b"
proof (induction fe d dl blks bw cb cp rule: write_loop.induct)
  case (1 fe d dl blks bw cb cp)
  show ?case
  proof (cases "bw < dl \<and> cb < num_blocks fe")
    case False
    then show ?thesis by (subst write_loop.simps) auto
  next
    case True
    define n where "n = (if cp + (dl - bw) > BLOCK_SIZE then BLOCK_SIZE - cp else dl - bw)"
    let ?blks' = "memcpy_block blks (blocks_fe fe cb) cp (take n (drop bw d))"
    have step: "write_loop fe d dl blks bw cb cp = write_loop fe d dl ?blks' (bw + n) (cb + 1) 0"
      using True by (subst write_loop.simps) (simp add: Let_def n_def)
    have "blocks_fe fe cb \<noteq> b" using "1.prems"[of cb] True by simp
    then have same: "?blks' b = blks b" by (simp add: memcpy_block_def)
    have "snd (write_loop fe d dl ?blks' (bw + n) (cb + 1) 0) b = ?blks' b"
      using "1.IH"[OF True refl refl refl, folded n_def] "1.prems" by simp
    then show ?thesis using step same by simp
  qed
qed

lemma write_file_state:
  "\<exists>blks. snd (write_file s fname offset data) = s\<lparr>blocks := blks\<rparr> \<and>
     (\<forall>b. blks b \<noteq> blocks s b \<longrightarrow>
        (\<exists>fi<MAX_FILES. in_use (file_table s fi) \<and>
           (\<exists>k<num_blocks (file_table s fi). blocks_fe (file_table s fi) k = b)))"
proof -
  have triv: "\<exists>blks. s = s\<lparr>blocks := blks\<rparr> \<and>
     (\<forall>b. blks b \<noteq> blocks s b \<longrightarrow>
        (\<exists>fi<MAX_FILES. in_use (file_table s fi) \<and>
           (\<exists>k<num_blocks (file_table s fi). blocks_fe (file_table s fi) k = b)))"
    by (rule exI[of _ "blocks s"]) simp
  show ?thesis
  proof (cases "\<exists>nm d fi. fname = Some nm \<and> data = Some d \<and> find_file s nm = Some fi \<and>
            \<not> offset > size_fe (file_table s fi) \<and>
            \<not> offset + strlen d > size_fe (file_table s fi)")
    case False
    then have "snd (write_file s fname offset data) = s"
      by (auto simp: write_file_def Let_def split: option.splits)
    then show ?thesis using triv by simp
  next
    case True
    then obtain nm d fi where h: "fname = Some nm" "data = Some d" "find_file s nm = Some fi"
      "\<not> offset > size_fe (file_table s fi)" "\<not> offset + strlen d > size_fe (file_table s fi)"
      by blast
    let ?fe = "file_table s fi"
    let ?r = "write_loop ?fe d (strlen d) (blocks s) 0 (offset div BLOCK_SIZE) (offset mod BLOCK_SIZE)"
    have st: "snd (write_file s fname offset data) = s\<lparr>blocks := snd ?r\<rparr>"
      using h by (simp add: write_file_def Let_def split: prod.splits)
    have "\<And>b. snd ?r b \<noteq> blocks s b \<Longrightarrow> \<exists>k<num_blocks ?fe. blocks_fe ?fe k = b"
      using write_loop_frame[of "offset div BLOCK_SIZE" ?fe] by metis
    then show ?thesis
      using st find_file_Some[OF h(3)] by (intro exI[of _ "snd ?r"]) blast
  qed
qed

lemma inv_blocks_update:
  "counters_agree (s\<lparr>blocks := x\<rparr>) = counters_agree s"
  "blocks_exclusive (s\<lparr>blocks := x\<rparr>) = blocks_exclusive s"
  "blocks_occupied (s\<lparr>blocks := x\<rparr>) = blocks_occupied s"
  "blocks_distinct (s\<lparr>blocks := x\<rparr>) = blocks_distinct s"
  "files_wf (s\<lparr>blocks := x\<rparr>) = files_wf s"
  by (simp_all add: counters_agree_def blocks_sum_def occupied_count_def
        live_count_def storage_sum_def blocks_exclusive_def blocks_occupied_def
        blocks_distinct_def files_wf_def cong: if_cong)

lemma fs_inv_write: "fs_inv s \<Longrightarrow> fs_inv (snd (write_file s fname offset data))"
proof -
  assume inv: "fs_inv s"
  obtain blks where st: "snd (write_file s fname offset data) = s\<lparr>blocks := blks\<rparr>"
    and fr: "\<And>b. blks b \<noteq> blocks s b \<Longrightarrow>
        (\<exists>fi<MAX_FILES. in_use (file_table s fi) \<and>
           (\<exists>k<num_blocks (file_table s fi). blocks_fe (file_table s fi) k = b))"
    using write_file_state[of s fname offset data] by blast
  have "counters_agree (s\<lparr>blocks := blks\<rparr>)"
    "blocks_exclusive (s\<lparr>blocks := blks\<rparr>)" "blocks_occupied (s\<lparr>blocks := blks\<rparr>)"
    "blocks_distinct (s\<lparr>blocks := blks\<rparr>)" "files_wf (s\<lparr>blocks := blks\<rparr>)"
    using inv unfolding inv_blocks_update by (simp_all add: fs_inv_def)
  moreover have "free_zero (s\<lparr>blocks := blks\<rparr>)"
    unfolding free_zero_def
  proof (intro allI impI)
    fix b p assume h: "b < MAX_BLOCKS" "\<not> block_map (s\<lparr>blocks := blks\<rparr>) b" "p < BLOCK_SIZE"
    have "blks b = blocks s b"
    proof (rule ccontr)
      assume "blks b \<noteq> blocks s b"
      then obtain fi k where "fi < MAX_FILES" "in_use (file_table s fi)"
        "k < num_blocks (file_table s fi)" "blocks_fe (file_table s fi) k = b"
        using fr by blast
      then have "block_map s b"
        using blocks_occupiedD[of s fi k] inv by (auto simp: fs_inv_def)
      then show False using h by simp
    qed
    then show "blocks (s\<lparr>blocks := blks\<rparr>) b p = NUL"
      using inv h by (simp add: fs_inv_def free_zero_def)
  qed
  ultimately show ?thesis by (simp add: st fs_inv_def)
qed

subsection \<open>\<open>delete_file\<close> keeps the invariant; reachable states\<close>

lemma delete_file_cases:
  "(\<exists>e. delete_file s fname = (Inl e, s)) \<or>
   (\<exists>nm fi. fname = Some nm \<and> find_file s nm = Some fi \<and>
      delete_file s fname = (Inr (), delete_result s fi))"
  by (auto simp: delete_file_def delete_result_def Let_def split: option.splits)

lemma blocks_exclusiveD:
  "blocks_exclusive s \<Longrightarrow> i < MAX_FILES \<Longrightarrow> j < MAX_FILES \<Longrightarrow>
   in_use (file_table s i) \<Longrightarrow> in_use (file_table s j) \<Longrightarrow> i \<noteq> j \<Longrightarrow>
   k < num_blocks (file_table s i) \<Longrightarrow> l < num_blocks (file_table s j) \<Longrightarrow>
   blocks_fe (file_table s i) k \<noteq> blocks_fe (file_table s j) l"
  by (simp add: blocks_exclusive_def)

lemma freed_owned:
  assumes "blocks_occupied s" "fi < MAX_FILES" "in_use (file_table s fi)"
  shows "freed s (num_blocks (file_table s fi)) (blocks_fe (file_table s fi))
           = blocks_fe (file_table s fi) ` {..<num_blocks (file_table s fi)}"
  using blocks_occupiedD[OF assms] by (auto simp: freed_def)

lemma live_size_le_sum:
  assumes "fi < MAX_FILES" "in_use (file_table s fi)"
  shows "size_fe (file_table s fi) \<le> storage_sum s"
proof -
  let ?g = "\<lambda>i. if in_use (file_table s i) then size_fe (file_table s i) else 0"
  have "?g fi \<le> sum ?g {..<MAX_FILES}"
    using assms(1) by (intro member_le_sum) auto
  then show ?thesis using assms(2) by (simp add: storage_sum_def sum_list_upt_conv)
qed

lemma fs_inv_delete_result:
  assumes inv: "fs_inv s" and fi: "fi < MAX_FILES" "in_use (file_table s fi)"
  shows "fs_inv (delete_result s fi)"
proof -
  let ?fe = "file_table s fi"
  let ?nb = "num_blocks ?fe"
  let ?A = "blocks_fe ?fe ` {..<?nb}"
  let ?s' = "delete_result s fi"
  have ca: "counters_agree s" and ex: "blocks_exclusive s" and oc: "blocks_occupied s"
    and di: "blocks_distinct s" and wf: "files_wf s" and fz: "free_zero s"
    using inv by (simp_all add: fs_inv_def)
  have A: "freed s ?nb (blocks_fe ?fe) = ?A" using freed_owned[OF oc fi] .
  have injA: "inj_on (blocks_fe ?fe) {..<?nb}" using di fi by (simp add: blocks_distinct_def)
  then have cardA: "card ?A = ?nb" by (simp add: card_image)
  have A_occ: "?A \<subseteq> {b. b < MAX_BLOCKS \<and> block_map s b}"
    using blocks_occupiedD[OF oc fi] by auto
  have used: "used_blocks s = occupied_count s" using ca by (simp add: counters_agree_def)
  have "card ?A \<le> card {b. b < MAX_BLOCKS \<and> block_map s b}"
    using A_occ by (intro card_mono) auto
  then have nb_le: "?nb \<le> used_blocks s"
    using cardA used by (simp add: occupied_count_card)
  have used_lt: "used_blocks s < SIZE_MOD"
    using used occupied_count_le[of s] SIZE_MOD_big(2) by linarith
  have nf: "num_files s = live_count s" and ts: "total_storage s = storage_sum s"
    using ca by (simp_all add: counters_agree_def)
  have "fi \<in> {i. i < MAX_FILES \<and> in_use (file_table s i)}" using fi by simp
  moreover have "finite {i. i < MAX_FILES \<and> in_use (file_table s i)}" by simp
  ultimately have "card {i. i < MAX_FILES \<and> in_use (file_table s i)} > 0"
    by (auto simp: card_gt_0_iff)
  then have nf1: "1 \<le> num_files s" by (simp add: nf live_count_card)
  have "num_files s < SIZE_MOD"
    using live_count_le[of s] nf by (simp add: MAX_FILES_def SIZE_MOD_def)
  then have nf': "size_sub (num_files s) 1 = num_files s - 1"
    using nf1 by (intro size_sub_small) auto
  have sz_le: "size_fe ?fe \<le> total_storage s" using live_size_le_sum[OF fi] ts by simp
  have "total_storage s < SIZE_MOD"
    using storage_sum_le[OF wf] ts by (simp add: MAX_FILES_def MAX_FILE_SIZE_def SIZE_MOD_def)
  then have ts': "size_sub (total_storage s) (size_fe ?fe) = total_storage s - size_fe ?fe"
    using sz_le by (intro size_sub_small) auto
  have us': "((\<lambda>u. size_sub u 1) ^^ ?nb) (used_blocks s) = used_blocks s - ?nb"
    using funpow_size_sub[OF nb_le used_lt] .
  have st: "?s' = s\<lparr>block_map := (\<lambda>b. if b \<in> ?A then False else block_map s b),
       blocks := (\<lambda>b. if b \<in> ?A then clear_block (blocks s b) else blocks s b),
       used_blocks := used_blocks s - ?nb,
       total_storage := total_storage s - size_fe ?fe,
       num_files := num_files s - 1,
       file_table := (file_table s)
              (fi := ?fe\<lparr>in_use := False, filename := [], size_fe := 0, num_blocks := 0\<rparr>)\<rparr>"
    using us' nf' by (simp add: delete_result_def Let_def free_blocks_eq A cardA ts')
  have ft_fi: "\<not> in_use (file_table ?s' fi)" by (simp add: st)
  have ft_other: "\<And>i. i \<noteq> fi \<Longrightarrow> file_table ?s' i = file_table s i" by (simp add: st)
  have bm': "\<And>b. block_map ?s' b = (b \<notin> ?A \<and> block_map s b)" by (simp add: st)
  have live': "\<And>i. in_use (file_table ?s' i) = (i \<noteq> fi \<and> in_use (file_table s i))"
    using ft_fi ft_other by metis
  have other_notA: "\<And>i k. i < MAX_FILES \<Longrightarrow> i \<noteq> fi \<Longrightarrow> in_use (file_table s i) \<Longrightarrow>
      k < num_blocks (file_table s i) \<Longrightarrow> blocks_fe (file_table s i) k \<notin> ?A"
    using blocks_exclusiveD[OF ex _ fi(1) _ fi(2)] by (auto simp: image_iff)

  have "blocks_occupied ?s'"
    unfolding blocks_occupied_def
  proof (intro allI impI)
    fix i k assume h: "i < MAX_FILES" "in_use (file_table ?s' i)" "k < num_blocks (file_table ?s' i)"
    then have i: "i \<noteq> fi" "in_use (file_table s i)" "k < num_blocks (file_table s i)"
      using live' ft_other by auto
    show "blocks_fe (file_table ?s' i) k < MAX_BLOCKS \<and> block_map ?s' (blocks_fe (file_table ?s' i) k)"
      using blocks_occupiedD[OF oc h(1) i(2,3)] other_notA[OF h(1) i] i(1)
      by (simp add: ft_other bm')
  qed
  moreover have "blocks_exclusive ?s'"
    unfolding blocks_exclusive_def
  proof (intro allI impI)
    fix i j k l
    assume h: "i < MAX_FILES" "j < MAX_FILES"
      "in_use (file_table ?s' i) \<and> in_use (file_table ?s' j) \<and> i \<noteq> j"
      "k < num_blocks (file_table ?s' i)" "l < num_blocks (file_table ?s' j)"
    then have "i \<noteq> fi" "j \<noteq> fi" using live' by auto
    then show "blocks_fe (file_table ?s' i) k \<noteq> blocks_fe (file_table ?s' j) l"
      using h ex by (simp add: ft_other blocks_exclusive_def)
  qed
  moreover have "blocks_distinct ?s'"
    unfolding blocks_distinct_def
  proof (intro allI impI)
    fix i assume h: "i < MAX_FILES" "in_use (file_table ?s' i)"
    then have "i \<noteq> fi" using live' by auto
    then show "inj_on (blocks_fe (file_table ?s' i)) {..<num_blocks (file_table ?s' i)}"
      using h di by (simp add: ft_other blocks_distinct_def)
  qed
  moreover have "files_wf ?s'"
    unfolding files_wf_def
  proof (intro allI impI)
    fix i assume h: "i < MAX_FILES" "in_use (file_table ?s' i)"
    then have "i \<noteq> fi" using live' by auto
    then show "0 < size_fe (file_table ?s' i) \<and> size_fe (file_table ?s' i) \<le> MAX_FILE_SIZE \<and>
        num_blocks (file_table ?s' i) = (size_fe (file_table ?s' i) + BLOCK_SIZE - 1) div BLOCK_SIZE"
      using h wf by (simp add: ft_other files_wf_def)
  qed
  moreover have "free_zero ?s'"
    unfolding free_zero_def
  proof (intro allI impI)
    fix b p assume h: "b < MAX_BLOCKS" "\<not> block_map ?s' b" "p < BLOCK_SIZE"
    show "blocks ?s' b p = NUL"
    proof (cases "b \<in> ?A")
      case True
      then show ?thesis using h(3) by (simp add: st clear_block_def)
    next
      case False
      then have "\<not> block_map s b" using h(2) by (simp add: bm')
      then show ?thesis using False fz h by (simp add: st free_zero_def)
    qed
  qed
  moreover have "counters_agree ?s'"
  proof -
    have "blocks_sum ?s' + ?nb = blocks_sum s + 0"
      unfolding blocks_sum_def sum_list_upt_conv
      using sum_upd[of fi MAX_FILES
          "\<lambda>i. if in_use (file_table ?s' i) then num_blocks (file_table ?s' i) else 0"
          "\<lambda>i. if in_use (file_table s i) then num_blocks (file_table s i) else 0"]
        fi ft_fi by (simp add: ft_other)
    moreover have "storage_sum ?s' + size_fe ?fe = storage_sum s + 0"
      unfolding storage_sum_def sum_list_upt_conv
      using sum_upd[of fi MAX_FILES
          "\<lambda>i. if in_use (file_table ?s' i) then size_fe (file_table ?s' i) else 0"
          "\<lambda>i. if in_use (file_table s i) then size_fe (file_table s i) else 0"]
        fi ft_fi by (simp add: ft_other)
    moreover have "live_count ?s' = live_count s - 1"
    proof -
      have "{i. i < MAX_FILES \<and> in_use (file_table ?s' i)}
              = {i. i < MAX_FILES \<and> in_use (file_table s i)} - {fi}"
        using live' by auto
      then show ?thesis using fi by (simp add: live_count_card)
    qed
    moreover have "occupied_count ?s' = occupied_count s - ?nb"
    proof -
      have "{b. b < MAX_BLOCKS \<and> block_map ?s' b}
              = {b. b < MAX_BLOCKS \<and> block_map s b} - ?A"
        using bm' by auto
      then show ?thesis
        using A_occ cardA by (simp add: occupied_count_card card_Diff_subset)
    qed
    moreover have "used_blocks ?s' = used_blocks s - ?nb" "num_files ?s' = num_files s - 1"
      "total_storage ?s' = total_storage s - size_fe ?fe"
      by (simp_all add: st)
    ultimately show ?thesis using ca nb_le sz_le nf1 unfolding counters_agree_def by auto
  qed
  ultimately show ?thesis by (simp add: fs_inv_def)
qed

lemma reachable_fs_inv: "reachable s \<Longrightarrow> fs_inv s"
proof (induction rule: reachable.induct)
  case (r_init s0)
  show ?case by (rule fs_inv_init)
next
  case (r_create s fname sz)
  then have "counters_agree s" "files_wf s" by (simp_all add: fs_inv_def)
  from create_file_cases[OF this, of fname sz] show ?case
  proof (elim disjE exE conjE)
    fix e assume "create_file s fname sz = (Inl e, s)"
    then show ?thesis using r_create.IH by simp
  next
    fix nm fi
    assume h: "0 < sz" "sz \<le> MAX_FILE_SIZE"
      "find (\<lambda>i. \<not> in_use (file_table s i)) [0..<MAX_FILES] = Some fi"
      "used_blocks s + blocks_needed sz \<le> MAX_BLOCKS"
      "create_file s fname sz = (Inr (), create_result s nm sz fi)"
    show ?thesis
      using fs_inv_create_result[OF r_create.IH h(1,2) _ _ h(4), of fi nm] find_free_slot[OF h(3)] h(5)
      by simp
  qed
next
  case (r_write s fname offset data)
  then show ?case by (simp add: fs_inv_write)
next
  case (r_delete s fname)
  from delete_file_cases[of s fname] show ?case
  proof (elim disjE exE conjE)
    fix e assume "delete_file s fname = (Inl e, s)"
    then show ?thesis using r_delete.IH by simp
  next
    fix nm fi
    assume h: "find_file s nm = Some fi" "delete_file s fname = (Inr (), delete_result s fi)"
    show ?thesis
      using fs_inv_delete_result[OF r_delete.IH] find_file_Some[OF h(1)] h(2) by simp
  qed
qed

subsection \<open>Offsets and blocks\<close>

lemma BLOCK_SIZE_pos: "0 < BLOCK_SIZE"
  by (simp add: BLOCK_SIZE_def)

lemma block_div_eq:
  assumes "cb * BLOCK_SIZE \<le> ofs" "ofs < cb * BLOCK_SIZE + BLOCK_SIZE"
  shows "ofs div BLOCK_SIZE = cb" "ofs mod BLOCK_SIZE = ofs - cb * BLOCK_SIZE"
proof -
  show d: "ofs div BLOCK_SIZE = cb"
    using assms by (intro div_nat_eqI) (simp_all add: mult.commute)
  have "ofs - ofs div BLOCK_SIZE * BLOCK_SIZE = ofs mod BLOCK_SIZE"
    by (rule minus_div_mult_eq_mod)
  then show "ofs mod BLOCK_SIZE = ofs - cb * BLOCK_SIZE"
    using d by simp
qed

lemma in_block_iff:
  assumes "cp + k \<le> BLOCK_SIZE"
  shows "(ofs div BLOCK_SIZE = cb \<and> cp \<le> ofs mod BLOCK_SIZE \<and> ofs mod BLOCK_SIZE < cp + k)
           = (cb * BLOCK_SIZE + cp \<le> ofs \<and> ofs < cb * BLOCK_SIZE + cp + k)"
proof
  assume L: "ofs div BLOCK_SIZE = cb \<and> cp \<le> ofs mod BLOCK_SIZE \<and> ofs mod BLOCK_SIZE < cp + k"
  have "ofs div BLOCK_SIZE * BLOCK_SIZE + ofs mod BLOCK_SIZE = ofs"
    by (rule div_mult_mod_eq)
  then have "ofs = cb * BLOCK_SIZE + ofs mod BLOCK_SIZE" using L by simp
  then show "cb * BLOCK_SIZE + cp \<le> ofs \<and> ofs < cb * BLOCK_SIZE + cp + k"
    using L by linarith
next
  assume R: "cb * BLOCK_SIZE + cp \<le> ofs \<and> ofs < cb * BLOCK_SIZE + cp + k"
  then have "cb * BLOCK_SIZE \<le> ofs" "ofs < cb * BLOCK_SIZE + BLOCK_SIZE"
    using assms by linarith+
  from block_div_eq[OF this] R
  show "ofs div BLOCK_SIZE = cb \<and> cp \<le> ofs mod BLOCK_SIZE \<and> ofs mod BLOCK_SIZE < cp + k"
    by simp linarith
qed

subsection \<open>The loop of \<open>read_file\<close>\<close>

lemma byte_at_block:
  "p < BLOCK_SIZE \<Longrightarrow> byte_at blks fe (cb * BLOCK_SIZE + p) = blks (blocks_fe fe cb) p"
  using block_div_eq[of cb "cb * BLOCK_SIZE + p"] by (simp add: byte_at_def)

lemma chunk_eq:
  assumes "cp + k \<le> BLOCK_SIZE"
  shows "map (blks (blocks_fe fe cb)) [cp..<cp + k]
           = map (byte_at blks fe) [cb * BLOCK_SIZE + cp..<cb * BLOCK_SIZE + cp + k]"
proof (rule nth_equalityI)
  show "length (map (blks (blocks_fe fe cb)) [cp..<cp + k])
          = length (map (byte_at blks fe) [cb * BLOCK_SIZE + cp..<cb * BLOCK_SIZE + cp + k])"
    by simp
next
  fix i assume "i < length (map (blks (blocks_fe fe cb)) [cp..<cp + k])"
  then have i: "i < k" by simp
  then have "cp + i < BLOCK_SIZE" using assms by simp
  then have "byte_at blks fe (cb * BLOCK_SIZE + (cp + i)) = blks (blocks_fe fe cb) (cp + i)"
    by (rule byte_at_block)
  then show "map (blks (blocks_fe fe cb)) [cp..<cp + k] ! i
          = map (byte_at blks fe) [cb * BLOCK_SIZE + cp..<cb * BLOCK_SIZE + cp + k] ! i"
    using i by (simp add: add.assoc)
qed

lemma read_loop_eq:
  assumes "br \<le> n" "cp < BLOCK_SIZE"
    and "cb * BLOCK_SIZE + cp + (n - br) \<le> num_blocks fe * BLOCK_SIZE"
    and "cp + (n - br) < SIZE_MOD"
  shows "read_loop s fe n br cb cp buf =
           Some (n, buf @ map (byte_at (blocks s) fe)
                           [cb * BLOCK_SIZE + cp..<cb * BLOCK_SIZE + cp + (n - br)])"
  using assms
proof (induction s fe n br cb cp buf rule: read_loop.induct)
  case (1 s fe n br cb cp buf)
  let ?pos = "cb * BLOCK_SIZE + cp"
  show ?case
  proof (cases "br < n")
    case False
    then have "br = n" using "1.prems"(1) by simp
    then show ?thesis by (subst read_loop.simps) simp
  next
    case True
    have cb: "cb < num_blocks fe"
    proof (rule ccontr)
      assume "\<not> cb < num_blocks fe"
      then have "num_blocks fe * BLOCK_SIZE \<le> cb * BLOCK_SIZE" by simp
      then show False using "1.prems"(3) True by linarith
    qed
    define now where "now = (if size_add cp (n - br) > BLOCK_SIZE then BLOCK_SIZE - cp else n - br)"
    have sa: "size_add cp (n - br) = cp + (n - br)"
      using "1.prems"(4) by (rule size_add_small)
    have now: "now = (if cp + (n - br) > BLOCK_SIZE then BLOCK_SIZE - cp else n - br)"
      by (simp add: now_def sa)
    have fit: "cp + now \<le> BLOCK_SIZE" "now \<le> n - br" "0 < now"
      using "1.prems"(2) True by (auto simp: now)
    let ?buf' = "buf @ map (blocks s (blocks_fe fe cb)) [cp..<cp + now]"
    have step: "read_loop s fe n br cb cp buf = read_loop s fe n (br + now) (cb + 1) 0 ?buf'"
      using True cb fit by (subst read_loop.simps) (simp add: Let_def now_def)
    have next_pos: "now < n - br \<Longrightarrow> (cb + 1) * BLOCK_SIZE = ?pos + now"
      using "1.prems"(2) by (auto simp: now split: if_splits)
    have p3: "(cb + 1) * BLOCK_SIZE + 0 + (n - (br + now)) \<le> num_blocks fe * BLOCK_SIZE"
    proof (cases "now < n - br")
      case True
      then show ?thesis using next_pos "1.prems"(3) fit by simp
    next
      case False
      then have "n - (br + now) = 0" using fit by simp
      moreover have "(cb + 1) * BLOCK_SIZE \<le> num_blocks fe * BLOCK_SIZE"
        using cb by (intro mult_le_mono1) simp
      ultimately show ?thesis by simp
    qed
    have p4: "0 + (n - (br + now)) < SIZE_MOD" using "1.prems"(4) by simp
    have ih: "read_loop s fe n (br + now) (cb + 1) 0 ?buf' =
        Some (n, ?buf' @ map (byte_at (blocks s) fe)
                [(cb + 1) * BLOCK_SIZE + 0..<(cb + 1) * BLOCK_SIZE + 0 + (n - (br + now))])"
      using "1.IH"[OF _ refl refl refl, folded now_def] True cb fit BLOCK_SIZE_pos p3 p4
      by simp
    have tail: "map (byte_at (blocks s) fe)
                [(cb + 1) * BLOCK_SIZE + 0..<(cb + 1) * BLOCK_SIZE + 0 + (n - (br + now))]
             = map (byte_at (blocks s) fe) [?pos + now..<?pos + (n - br)]"
    proof (cases "now < n - br")
      case True
      have a: "(cb + 1) * BLOCK_SIZE + 0 = ?pos + now" using next_pos[OF True] by simp
      have b: "?pos + now + (n - (br + now)) = ?pos + (n - br)"
        using True by linarith
      show ?thesis by (simp only: a b)
    next
      case False
      then have "n - (br + now) = 0" "now = n - br" using fit by simp_all
      then show ?thesis by simp
    qed
    have "[?pos..<(?pos + now) + ((n - br) - now)]
            = [?pos..<?pos + now] @ [?pos + now..<(?pos + now) + ((n - br) - now)]"
      by (rule upt_add_eq_append) simp
    moreover have "(?pos + now) + ((n - br) - now) = ?pos + (n - br)"
      using fit(2) by simp
    ultimately
    have "[?pos..<?pos + (n - br)] = [?pos..<?pos + now] @ [?pos + now..<?pos + (n - br)]"
      by (simp only:)
    then have "map (byte_at (blocks s) fe) [?pos..<?pos + (n - br)]
       = map (blocks s (blocks_fe fe cb)) [cp..<cp + now]
         @ map (byte_at (blocks s) fe) [?pos + now..<?pos + (n - br)]"
      using chunk_eq[OF fit(1), of "blocks s" fe cb] by simp
    then show ?thesis unfolding step ih tail by simp
  qed
qed

subsection \<open>The loop of \<open>write_file\<close>\<close>

lemma byte_at_memcpy:
  assumes inj: "inj_on (blocks_fe fe) {..<num_blocks fe}"
    and cb: "cb < num_blocks fe" and ofs: "ofs < num_blocks fe * BLOCK_SIZE"
    and fit: "cp + length src \<le> BLOCK_SIZE"
  shows "byte_at (memcpy_block blks (blocks_fe fe cb) cp src) fe ofs =
           (if cb * BLOCK_SIZE + cp \<le> ofs \<and> ofs < cb * BLOCK_SIZE + cp + length src
            then src ! (ofs - (cb * BLOCK_SIZE + cp)) else byte_at blks fe ofs)"
proof -
  have "ofs div BLOCK_SIZE < num_blocks fe"
    using ofs BLOCK_SIZE_pos by (simp add: less_mult_imp_div_less)
  then have same: "(blocks_fe fe (ofs div BLOCK_SIZE) = blocks_fe fe cb) = (ofs div BLOCK_SIZE = cb)"
    using inj cb by (auto simp: inj_on_def)
  show ?thesis
  proof (cases "cb * BLOCK_SIZE + cp \<le> ofs \<and> ofs < cb * BLOCK_SIZE + cp + length src")
    case True
    then have in_blk: "ofs div BLOCK_SIZE = cb \<and> cp \<le> ofs mod BLOCK_SIZE \<and>
        ofs mod BLOCK_SIZE < cp + length src"
      using in_block_iff[OF fit, of ofs cb] by simp
    have "cb * BLOCK_SIZE \<le> ofs" "ofs < cb * BLOCK_SIZE + BLOCK_SIZE"
      using True fit by linarith+
    then have "ofs mod BLOCK_SIZE = ofs - cb * BLOCK_SIZE" by (rule block_div_eq)
    then have "ofs mod BLOCK_SIZE - cp = ofs - (cb * BLOCK_SIZE + cp)" by simp
    then show ?thesis
      using True in_blk by (simp add: byte_at_def memcpy_block_def)
  next
    case False
    then have "\<not> (ofs div BLOCK_SIZE = cb \<and> cp \<le> ofs mod BLOCK_SIZE \<and>
        ofs mod BLOCK_SIZE < cp + length src)"
      using in_block_iff[OF fit, of ofs cb] by simp
    then show ?thesis
      using False same by (auto simp: byte_at_def memcpy_block_def)
  qed
qed

lemma write_loop_eq:
  assumes "inj_on (blocks_fe fe) {..<num_blocks fe}"
    and "bw \<le> dl" "dl \<le> length d" "cp < BLOCK_SIZE"
    and "cb * BLOCK_SIZE + cp + (dl - bw) \<le> num_blocks fe * BLOCK_SIZE"
  shows "fst (write_loop fe d dl blks bw cb cp) = dl \<and>
         (\<forall>ofs < num_blocks fe * BLOCK_SIZE.
            byte_at (snd (write_loop fe d dl blks bw cb cp)) fe ofs =
              (if cb * BLOCK_SIZE + cp \<le> ofs \<and> ofs < cb * BLOCK_SIZE + cp + (dl - bw)
               then d ! (bw + (ofs - (cb * BLOCK_SIZE + cp))) else byte_at blks fe ofs))"
  using assms
proof (induction fe d dl blks bw cb cp rule: write_loop.induct)
  case (1 fe d dl blks bw cb cp)
  let ?pos = "cb * BLOCK_SIZE + cp"
  show ?case
  proof (cases "bw < dl")
    case False
    then have "bw = dl" using "1.prems"(2) by simp
    then have "write_loop fe d dl blks bw cb cp = (bw, blks)"
      by (subst write_loop.simps) simp
    then show ?thesis using \<open>bw = dl\<close> by auto
  next
    case True
    have cb: "cb < num_blocks fe"
    proof (rule ccontr)
      assume "\<not> cb < num_blocks fe"
      then have "num_blocks fe * BLOCK_SIZE \<le> cb * BLOCK_SIZE" by simp
      then show False using "1.prems"(5) True by linarith
    qed
    define now where "now = (if cp + (dl - bw) > BLOCK_SIZE then BLOCK_SIZE - cp else dl - bw)"
    have fit: "cp + now \<le> BLOCK_SIZE" "now \<le> dl - bw" "0 < now"
      using "1.prems"(4) True by (auto simp: now_def)
    let ?src = "take now (drop bw d)"
    have len: "length ?src = now" using fit "1.prems"(2,3) by simp
    let ?blks' = "memcpy_block blks (blocks_fe fe cb) cp ?src"
    have step: "write_loop fe d dl blks bw cb cp = write_loop fe d dl ?blks' (bw + now) (cb + 1) 0"
      using True cb by (subst write_loop.simps) (simp add: Let_def now_def)
    have next_pos: "now < dl - bw \<Longrightarrow> (cb + 1) * BLOCK_SIZE = ?pos + now"
      using "1.prems"(4) by (auto simp: now_def split: if_splits)
    have p5: "(cb + 1) * BLOCK_SIZE + 0 + (dl - (bw + now)) \<le> num_blocks fe * BLOCK_SIZE"
    proof (cases "now < dl - bw")
      case True
      then show ?thesis using next_pos "1.prems"(5) fit by simp
    next
      case False
      then have "dl - (bw + now) = 0" using fit by simp
      moreover have "(cb + 1) * BLOCK_SIZE \<le> num_blocks fe * BLOCK_SIZE"
        using cb by (intro mult_le_mono1) simp
      ultimately show ?thesis by simp
    qed
    have ih: "fst (write_loop fe d dl ?blks' (bw + now) (cb + 1) 0) = dl \<and>
         (\<forall>ofs < num_blocks fe * BLOCK_SIZE.
            byte_at (snd (write_loop fe d dl ?blks' (bw + now) (cb + 1) 0)) fe ofs =
              (if (cb + 1) * BLOCK_SIZE + 0 \<le> ofs
                  \<and> ofs < (cb + 1) * BLOCK_SIZE + 0 + (dl - (bw + now))
               then d ! (bw + now + (ofs - ((cb + 1) * BLOCK_SIZE + 0)))
               else byte_at ?blks' fe ofs))"
      using "1.IH"[OF _ refl refl refl, folded now_def] True cb fit BLOCK_SIZE_pos p5 "1.prems"(1,3)
      by simp
    have "\<forall>ofs < num_blocks fe * BLOCK_SIZE.
            byte_at (snd (write_loop fe d dl ?blks' (bw + now) (cb + 1) 0)) fe ofs =
              (if ?pos \<le> ofs \<and> ofs < ?pos + (dl - bw)
               then d ! (bw + (ofs - ?pos)) else byte_at blks fe ofs)"
    proof (intro allI impI)
      fix ofs assume ofs: "ofs < num_blocks fe * BLOCK_SIZE"
      have m: "byte_at ?blks' fe ofs =
           (if ?pos \<le> ofs \<and> ofs < ?pos + now
            then d ! (bw + (ofs - ?pos)) else byte_at blks fe ofs)"
        using byte_at_memcpy[OF "1.prems"(1) cb ofs, of cp ?src blks] fit len "1.prems"(2,3)
        by (auto simp: nth_take)
      show "byte_at (snd (write_loop fe d dl ?blks' (bw + now) (cb + 1) 0)) fe ofs =
              (if ?pos \<le> ofs \<and> ofs < ?pos + (dl - bw)
               then d ! (bw + (ofs - ?pos)) else byte_at blks fe ofs)"
      proof (cases "now < dl - bw")
        case True
        have a: "(cb + 1) * BLOCK_SIZE + 0 = ?pos + now" using next_pos[OF True] by simp
        have b: "?pos + now + (dl - (bw + now)) = ?pos + (dl - bw)" using True by linarith
        have "byte_at (snd (write_loop fe d dl ?blks' (bw + now) (cb + 1) 0)) fe ofs =
              (if ?pos + now \<le> ofs \<and> ofs < ?pos + (dl - bw)
               then d ! (bw + now + (ofs - (?pos + now))) else byte_at ?blks' fe ofs)"
          using ih ofs by (simp only: a b)
        then show ?thesis using m fit by (auto simp: not_le)
      next
        case False
        then have e: "dl - (bw + now) = 0" "now = dl - bw" using fit by simp_all
        have "\<not> ((cb + 1) * BLOCK_SIZE + 0 \<le> ofs
                  \<and> ofs < (cb + 1) * BLOCK_SIZE + 0 + (dl - (bw + now)))"
          unfolding e(1) by simp
        moreover have "byte_at (snd (write_loop fe d dl ?blks' (bw + now) (cb + 1) 0)) fe ofs =
              (if (cb + 1) * BLOCK_SIZE + 0 \<le> ofs
                  \<and> ofs < (cb + 1) * BLOCK_SIZE + 0 + (dl - (bw + now))
               then d ! (bw + now + (ofs - ((cb + 1) * BLOCK_SIZE + 0)))
               else byte_at ?blks' fe ofs)"
          using ih ofs by blast
        ultimately have "byte_at (snd (write_loop fe d dl ?blks' (bw + now) (cb + 1) 0)) fe ofs
                = byte_at ?blks' fe ofs"
          by (simp only: if_False)
        then show ?thesis using m e(2) by simp
      qed
    qed
    then show ?thesis using ih step by simp
  qed
qed

subsection \<open>Successful calls of \<open>create_file\<close>, \<open>write_file\<close> and \<open>read_file\<close>\<close>

lemma create_file_ok:
  assumes "counters_agree s" "files_wf s"
    and g: "strlen nm \<noteq> 0" "0 < sz" "sz \<le> MAX_FILE_SIZE" "find_file s nm = None"
      "num_files s < MAX_FILES"
    and fits: "used_blocks s + blocks_needed sz \<le> MAX_BLOCKS"
    and slot: "find (\<lambda>i. \<not> in_use (file_table s i)) [0..<MAX_FILES] = Some fi"
  shows "create_file s (Some nm) sz = (Inr (), create_result s nm sz fi)"
proof -
  let ?nb = "blocks_needed sz"
  have nb: "0 < ?nb" "?nb \<le> MAX_BLOCKS" using blocks_needed_bounds g by auto
  have used: "used_blocks s = occupied_count s" using assms(1) by (simp add: counters_agree_def)
  have "used_blocks s + ?nb < SIZE_MOD" using fits SIZE_MOD_big by linarith
  then have sa: "size_add (used_blocks s) ?nb = used_blocks s + ?nb" by (rule size_add_small)
  have "?nb \<le> free_count s"
    using fits used occupied_free_count[of s] by simp
  then have al: "allocate_blocks s ?nb (blocks_fe (file_table s fi)) =
     (?nb, store_list (blocks_fe (file_table s fi)) 0 (alloc_choice (block_map s) ?nb),
      s\<lparr>block_map := mark (block_map s) (alloc_choice (block_map s) ?nb),
        used_blocks := used_blocks s + ?nb\<rparr>)"
    using allocate_blocks_ok[OF nb(1)] fits by simp
  have "num_files s + 1 < SIZE_MOD"
    using g(5) by (simp add: MAX_FILES_def SIZE_MOD_def)
  then have nf: "size_add (num_files s) 1 = num_files s + 1" by (rule size_add_small)
  have "total_storage s \<le> MAX_FILES * MAX_FILE_SIZE"
    using assms(1,2) storage_sum_le by (simp add: counters_agree_def)
  then have "total_storage s + sz < SIZE_MOD"
    using g(3) by (simp add: MAX_FILES_def MAX_FILE_SIZE_def SIZE_MOD_def)
  then have ts: "size_add (total_storage s) sz = total_storage s + sz"
    by (rule size_add_small)
  show ?thesis
    using g sa fits slot al[unfolded blocks_needed_def] nf ts
    by (simp add: create_file_def Let_def blocks_needed_def create_result_def)
qed

lemma c_str_idem: "c_str (c_str xs) = c_str xs"
  by (simp add: c_str_def takeWhile_idem)

lemma c_str_no_NUL: "NUL \<notin> set (c_str xs)"
  by (auto simp: c_str_def dest: set_takeWhileD)


lemma c_str_take: "c_str xs = take (strlen xs) xs"
  unfolding c_str_def strlen_def by (rule takeWhile_eq_take)

lemma strlen_le: "strlen xs \<le> length xs"
  by (simp add: strlen_def c_str_def length_takeWhile_le)

lemma c_str_take_stored:
  "strlen nm < MAX_FILENAME \<Longrightarrow> c_str (take (MAX_FILENAME - 1) (c_str nm)) = c_str nm"
  by (simp add: strlen_def c_str_idem)

lemma find_file_created:
  assumes "find_file s nm = None" "fi < MAX_FILES" "strlen nm < MAX_FILENAME"
  shows "find_file (create_result s nm sz fi) nm = Some fi"
proof -
  let ?s' = "create_result s nm sz fi"
  have other: "\<And>i. i \<noteq> fi \<Longrightarrow> file_table ?s' i = file_table s i"
    by (simp add: create_result_def)
  have none: "\<And>i. i < MAX_FILES \<Longrightarrow>
      \<not> (in_use (file_table s i) \<and> c_str (filename (file_table s i)) = c_str nm)"
    using assms(1) by (auto simp: find_file_def find_None_iff)
  have "in_use (file_table ?s' fi) \<and> c_str (filename (file_table ?s' fi)) = c_str nm"
    using c_str_take_stored[OF assms(3)] by (simp add: create_result_def)
  moreover have "\<forall>j<fi. \<not> (in_use (file_table ?s' j) \<and> c_str (filename (file_table ?s' j)) = c_str nm)"
    using none other assms(2) by auto
  ultimately show ?thesis
    using assms(2) unfolding find_file_def find_Some_iff
    by (intro exI[of _ fi]) auto
qed

lemma find_file_blocks_update [simp]: "find_file (s\<lparr>blocks := x\<rparr>) nm = find_file s nm"
  by (simp add: find_file_def)

lemma file_props:
  assumes "fs_inv s" "find_file s nm = Some fi"
  shows "inj_on (blocks_fe (file_table s fi)) {..<num_blocks (file_table s fi)}"
    and "size_fe (file_table s fi) \<le> num_blocks (file_table s fi) * BLOCK_SIZE"
    and "0 < size_fe (file_table s fi)"
    and "size_fe (file_table s fi) \<le> MAX_FILE_SIZE"
proof -
  note f = find_file_Some[OF assms(2)]
  show "inj_on (blocks_fe (file_table s fi)) {..<num_blocks (file_table s fi)}"
    using assms(1) f by (simp add: fs_inv_def blocks_distinct_def)
  have wf: "0 < size_fe (file_table s fi) \<and> size_fe (file_table s fi) \<le> MAX_FILE_SIZE \<and>
        num_blocks (file_table s fi) = (size_fe (file_table s fi) + BLOCK_SIZE - 1) div BLOCK_SIZE"
    using assms(1) f by (simp add: fs_inv_def files_wf_def)
  then show "0 < size_fe (file_table s fi)" "size_fe (file_table s fi) \<le> MAX_FILE_SIZE"
    by simp_all
  show "size_fe (file_table s fi) \<le> num_blocks (file_table s fi) * BLOCK_SIZE"
    using wf unfolding BLOCK_SIZE_def by linarith
qed

lemma offset_split: "offset div BLOCK_SIZE * BLOCK_SIZE + offset mod BLOCK_SIZE = offset"
  by (rule div_mult_mod_eq)

lemma write_file_ok:
  assumes "fs_inv s" "find_file s nm = Some fi"
    and "offset + strlen d \<le> size_fe (file_table s fi)"
  shows "fst (write_file s (Some nm) offset (Some d)) = Inr (strlen d)"
    and "file_table (snd (write_file s (Some nm) offset (Some d))) = file_table s"
    and "ofs < num_blocks (file_table s fi) * BLOCK_SIZE \<Longrightarrow>
         byte_at (blocks (snd (write_file s (Some nm) offset (Some d)))) (file_table s fi) ofs =
           (if offset \<le> ofs \<and> ofs < offset + strlen d then d ! (ofs - offset)
            else byte_at (blocks s) (file_table s fi) ofs)"
proof -
  let ?fe = "file_table s fi"
  let ?r = "write_loop ?fe d (strlen d) (blocks s) 0 (offset div BLOCK_SIZE) (offset mod BLOCK_SIZE)"
  note fp = file_props[OF assms(1,2)]
  have wf: "write_file s (Some nm) offset (Some d) = (Inr (fst ?r), s\<lparr>blocks := snd ?r\<rparr>)"
    using assms(2,3) by (simp add: write_file_def Let_def split: prod.splits)
  have "offset div BLOCK_SIZE * BLOCK_SIZE + offset mod BLOCK_SIZE + (strlen d - 0)
          \<le> num_blocks ?fe * BLOCK_SIZE"
    using assms(3) fp(2) by (simp add: offset_split)
  from write_loop_eq[where bw = 0 and blks = "blocks s", OF fp(1) _ strlen_le _ this]
  have r: "fst ?r = strlen d"
    "\<And>ofs. ofs < num_blocks ?fe * BLOCK_SIZE \<Longrightarrow> byte_at (snd ?r) ?fe ofs =
        (if offset \<le> ofs \<and> ofs < offset + strlen d then d ! (ofs - offset)
         else byte_at (blocks s) ?fe ofs)"
    using BLOCK_SIZE_pos by (simp_all add: offset_split)
  show "fst (write_file s (Some nm) offset (Some d)) = Inr (strlen d)"
    using wf r(1) by simp
  show "file_table (snd (write_file s (Some nm) offset (Some d))) = file_table s"
    using wf by simp
  show "ofs < num_blocks ?fe * BLOCK_SIZE \<Longrightarrow>
         byte_at (blocks (snd (write_file s (Some nm) offset (Some d)))) ?fe ofs =
           (if offset \<le> ofs \<and> ofs < offset + strlen d then d ! (ofs - offset)
            else byte_at (blocks s) ?fe ofs)"
    using wf r(2) by simp
qed

lemma read_file_ok:
  assumes "fs_inv s" "find_file s nm = Some fi"
    and "offset < size_fe (file_table s fi)" "0 < n" "offset + n < SIZE_MOD"
  shows "read_file s (Some nm) offset n (Some ()) =
           Inr (map (byte_at (blocks s) (file_table s fi))
                    [offset..<offset + min n (size_fe (file_table s fi) - offset)] @ [NUL])"
proof -
  let ?fe = "file_table s fi"
  let ?k = "min n (size_fe ?fe - offset)"
  note fp = file_props[OF assms(1,2)]
  have sa: "size_add offset n = offset + n" using assms(5) by (rule size_add_small)
  have btr: "(if size_add offset n > size_fe ?fe then size_fe ?fe - offset else n) = ?k"
    using assms(3) by (auto simp: sa min_def)
  have "offset mod BLOCK_SIZE \<le> offset" by simp
  moreover have "?k \<le> n" by simp
  ultimately have p4: "offset mod BLOCK_SIZE + (?k - 0) < SIZE_MOD" using assms(5) by linarith
  have p3: "offset div BLOCK_SIZE * BLOCK_SIZE + offset mod BLOCK_SIZE + (?k - 0)
          \<le> num_blocks ?fe * BLOCK_SIZE"
    using assms(3) fp(2) by (simp add: offset_split)
  have "read_loop s ?fe ?k 0 (offset div BLOCK_SIZE) (offset mod BLOCK_SIZE) [] =
          Some (?k, map (byte_at (blocks s) ?fe) [offset..<offset + ?k])"
    using read_loop_eq[where buf = "[]" and s = s, OF _ _ p3 p4] BLOCK_SIZE_pos
    by (simp add: offset_split)
  then show ?thesis
    using assms(2,3,4) btr by (simp add: read_file_def Let_def)
qed

subsection \<open>The example states \<open>fs0\<close> and \<open>fs1\<close>\<close>

lemma fs0_not_in_use: "\<not> in_use (file_table fs0 i)"
  by (simp add: fs0_def file_table_init zero_storage_def)

lemma fs0_counters: "num_files fs0 = 0" "used_blocks fs0 = 0" "total_storage fs0 = 0"
  by (simp_all add: fs0_def counters_init)

lemma fs_inv_fs0: "fs_inv fs0"
  unfolding fs0_def by (rule fs_inv_init)

lemma find_file_fs0: "find_file fs0 nm = None"
  by (simp add: find_file_def find_None_iff fs0_not_in_use)

lemma free_slot_fs0: "find (\<lambda>i. \<not> in_use (file_table fs0 i)) [0..<MAX_FILES] = Some 0"
proof -
  have "[0..<MAX_FILES] = 0 # [1..<MAX_FILES]"
    by (simp add: MAX_FILES_def upt_conv_Cons)
  then show ?thesis by (simp add: fs0_not_in_use)
qed

lemma strlen_f: "strlen ''f'' = 1" "c_str ''f'' = ''f''"
  by (simp_all add: strlen_def c_str_def NUL_def)

lemma fs1_eq: "create_file fs0 (Some ''f'') 10 = (Inr (), create_result fs0 ''f'' 10 0)"
proof (rule create_file_ok)
  show "counters_agree fs0" "files_wf fs0" using fs_inv_fs0 by (simp_all add: fs_inv_def)
  show "strlen ''f'' \<noteq> 0" by (simp add: strlen_f)
  show "(0::nat) < 10" by simp
  show "10 \<le> MAX_FILE_SIZE" by (simp add: MAX_FILE_SIZE_def)
  show "find_file fs0 ''f'' = None" by (rule find_file_fs0)
  show "num_files fs0 < MAX_FILES" by (simp add: fs0_counters MAX_FILES_def)
  show "used_blocks fs0 + blocks_needed 10 \<le> MAX_BLOCKS"
    by (simp add: fs0_counters blocks_needed_def BLOCK_SIZE_def MAX_BLOCKS_eq)
  show "find (\<lambda>i. \<not> in_use (file_table fs0 i)) [0..<MAX_FILES] = Some 0"
    by (rule free_slot_fs0)
qed

lemma fs1_result: "fs1 = create_result fs0 ''f'' 10 0"
  by (simp add: fs1_def fs1_eq)

lemma find_file_fs1: "find_file fs1 ''f'' = Some 0"
  unfolding fs1_result
  by (rule find_file_created) (simp_all add: find_file_fs0 MAX_FILES_def strlen_f MAX_FILENAME_def)

lemma size_fs1: "size_fe (file_table fs1 0) = 10"
  by (simp add: fs1_result create_result_def)

subsection \<open>Writing, then reading\<close>

lemma fs_inv_fs1: "fs_inv fs1"
  unfolding fs1_def fs0_def by (intro reachable_fs_inv reachable.intros)

lemma find_file_table_cong:
  "file_table s' = file_table s \<Longrightarrow> find_file s' nm = find_file s nm"
  by (simp add: find_file_def)




subsection \<open>The fragmented pool\<close>

lemma map_store_list: "length L = n \<Longrightarrow> map (store_list bl 0 L) [0..<n] = L"
  by (rule nth_equalityI) (simp_all add: store_list_def)

lemma upt_MAX_BLOCKS:
  "[0..<MAX_BLOCKS] = 0 # Suc 0 # Suc (Suc 0) # [Suc (Suc (Suc 0))..<MAX_BLOCKS]"
proof -
  have a: "[0..<MAX_BLOCKS] = 0 # [Suc 0..<MAX_BLOCKS]"
    by (rule upt_conv_Cons) (simp add: MAX_BLOCKS_eq)
  have b: "[Suc 0..<MAX_BLOCKS] = Suc 0 # [Suc (Suc 0)..<MAX_BLOCKS]"
    by (rule upt_conv_Cons) (simp add: MAX_BLOCKS_eq)
  have c: "[Suc (Suc 0)..<MAX_BLOCKS] = Suc (Suc 0) # [Suc (Suc (Suc 0))..<MAX_BLOCKS]"
    by (rule upt_conv_Cons) (simp add: MAX_BLOCKS_eq)
  show ?thesis by (simp only: a b c)
qed

lemma free_fragmented:
  "filter (\<lambda>b. \<not> block_map fragmented b) [0..<MAX_BLOCKS] = [0, 2]"
proof -
  have "filter (\<lambda>b. \<not> block_map fragmented b) [Suc (Suc (Suc 0))..<MAX_BLOCKS] = []"
    by (auto simp: filter_empty_conv fragmented_def)
  moreover have "\<not> block_map fragmented 0" "block_map fragmented (Suc 0)"
    "\<not> block_map fragmented (Suc (Suc 0))"
    by (simp_all add: fragmented_def)
  ultimately show ?thesis
    unfolding upt_MAX_BLOCKS by (simp add: numeral_2_eq_2)
qed

lemma free_count_fragmented: "free_count fragmented = 2"
  by (simp add: free_count_def free_fragmented)

lemma occupied_count_fragmented: "occupied_count fragmented = 2046"
  using occupied_free_count[of fragmented] by (simp add: free_count_fragmented MAX_BLOCKS_eq)

lemma first_run_fragmented: "first_run (block_map fragmented) 2 = None"
proof -
  have "\<And>i. \<not> free_run (block_map fragmented) i 2"
  proof
    fix i assume "free_run (block_map fragmented) i 2"
    then have r: "\<forall>j\<in>{0..<2}. \<not> block_map fragmented (i + j)"
      by (simp add: free_run_def)
    have "(0::nat) \<in> {0..<2}" "(1::nat) \<in> {0..<2}" by simp_all
    then have "\<not> block_map fragmented (i + 0)" "\<not> block_map fragmented (i + 1)"
      using r by blast+
    then show False by (auto simp: fragmented_def)
  qed
  then show ?thesis by (simp add: first_run_def find_None_iff)
qed

subsection \<open>Results of \<open>write_file\<close>; the example state \<open>fs2\<close>\<close>

lemma write_file_Inr:
  "fst (write_file s fname offset data) = Inr k \<Longrightarrow>
     \<exists>nm d fi. fname = Some nm \<and> data = Some d \<and> find_file s nm = Some fi \<and>
        offset + strlen d \<le> size_fe (file_table s fi)"
  by (auto simp: write_file_def Let_def split: option.splits if_splits prod.splits)

lemma write_file_empty_at:
  assumes "find_file s nm = Some fi" "offset \<le> size_fe (file_table s fi)"
  shows "write_file s (Some nm) offset (Some []) = (Inr 0, s)"
proof -
  have "strlen [] = 0" by (simp add: strlen_def c_str_def)
  moreover have "\<And>fe blks cb cp. write_loop fe [] 0 blks 0 cb cp = (0, blks)"
    by (subst write_loop.simps) simp
  ultimately show ?thesis
    using assms by (simp add: write_file_def Let_def)
qed

lemma strlen_digits: "strlen ''0123456789'' = 10" "strlen ''abc'' = 3"
  by (simp_all add: strlen_def c_str_def NUL_def)

lemma fs2_table: "file_table fs2 = file_table fs1"
  unfolding fs2_def
  by (rule write_file_ok(2)[OF fs_inv_fs1 find_file_fs1]) (simp add: strlen_digits size_fs1)

lemma find_file_fs2: "find_file fs2 ''f'' = Some 0"
  using find_file_table_cong[OF fs2_table] find_file_fs1 by simp

lemma size_fs2: "size_fe (file_table fs2 0) = 10"
  by (simp add: fs2_table size_fs1)

lemma fs2_bytes:
  assumes "ofs < 10"
  shows "byte_at (blocks fs2) (file_table fs2 0) ofs = ''0123456789'' ! ofs"
proof -
  have "ofs < num_blocks (file_table fs1 0) * BLOCK_SIZE"
    using assms file_props(2)[OF fs_inv_fs1 find_file_fs1] by (simp add: size_fs1)
  from write_file_ok(3)[OF fs_inv_fs1 find_file_fs1 _ this, of 0 "''0123456789''"]
  show ?thesis
    using assms unfolding fs2_table by (simp add: fs2_def strlen_digits size_fs1)
qed

subsection \<open>The payload of \<open>write_file\<close>\<close>

lemma write_loop_take:
  "bw \<le> dl \<Longrightarrow>
     write_loop fe d dl blks bw cb cp = write_loop fe (take dl d) dl blks bw cb cp"
proof (induction fe d dl blks bw cb cp rule: write_loop.induct)
  case (1 fe d dl blks bw cb cp)
  show ?case
  proof (cases "bw < dl \<and> cb < num_blocks fe")
    case False
    then have "write_loop fe d dl blks bw cb cp = (bw, blks)"
      "write_loop fe (take dl d) dl blks bw cb cp = (bw, blks)"
      by (subst write_loop.simps, auto)+
    then show ?thesis by simp
  next
    case True
    define now where "now = (if cp + (dl - bw) > BLOCK_SIZE then BLOCK_SIZE - cp else dl - bw)"
    have le: "now \<le> dl - bw" unfolding now_def by (auto split: if_splits)
    have "drop bw (take dl d) = take (dl - bw) (drop bw d)" by (rule drop_take)
    then have src: "take now (drop bw (take dl d)) = take now (drop bw d)"
      using le by (simp add: min_absorb1)
    let ?blks' = "memcpy_block blks (blocks_fe fe cb) cp (take now (drop bw d))"
    have l: "write_loop fe d dl blks bw cb cp = write_loop fe d dl ?blks' (bw + now) (cb + 1) 0"
      using True by (subst write_loop.simps) (simp add: Let_def now_def)
    have r: "write_loop fe (take dl d) dl blks bw cb cp
               = write_loop fe (take dl d) dl ?blks' (bw + now) (cb + 1) 0"
      using True src by (subst write_loop.simps) (simp add: Let_def now_def)
    have "bw + now \<le> dl" using le "1.prems" by simp
    then have "write_loop fe d dl ?blks' (bw + now) (cb + 1) 0
                 = write_loop fe (take dl d) dl ?blks' (bw + now) (cb + 1) 0"
      using "1.IH"[OF True refl refl refl, folded now_def] by simp
    then show ?thesis using l r by simp
  qed
qed

lemma memcpy_block_cases:
  "memcpy_block blks bi cp src b p = blks b p \<or> memcpy_block blks bi cp src b p \<in> set src"
proof (cases "b = bi \<and> cp \<le> p \<and> p < cp + length src")
  case True
  then have "p - cp < length src" by linarith
  then have "src ! (p - cp) \<in> set src" by (rule nth_mem)
  then show ?thesis using True by (simp add: memcpy_block_def)
next
  case False
  then show ?thesis by (auto simp: memcpy_block_def)
qed

lemma write_loop_bytes:
  "bw \<le> dl \<Longrightarrow>
     snd (write_loop fe d dl blks bw cb cp) b p = blks b p \<or>
     snd (write_loop fe d dl blks bw cb cp) b p \<in> set (take dl d)"
proof (induction fe d dl blks bw cb cp rule: write_loop.induct)
  case (1 fe d dl blks bw cb cp)
  show ?case
  proof (cases "bw < dl \<and> cb < num_blocks fe")
    case False
    then have "write_loop fe d dl blks bw cb cp = (bw, blks)"
      by (subst write_loop.simps) auto
    then show ?thesis by simp
  next
    case True
    define now where "now = (if cp + (dl - bw) > BLOCK_SIZE then BLOCK_SIZE - cp else dl - bw)"
    have le: "bw + now \<le> dl" using True unfolding now_def by (auto split: if_splits)
    let ?src = "take now (drop bw d)"
    let ?blks' = "memcpy_block blks (blocks_fe fe cb) cp ?src"
    have step: "write_loop fe d dl blks bw cb cp = write_loop fe d dl ?blks' (bw + now) (cb + 1) 0"
      using True by (subst write_loop.simps) (simp add: Let_def now_def)
    have "?src = drop bw (take (now + bw) d)" by (rule take_drop)
    then have "set ?src \<subseteq> set (take (now + bw) d)" by (simp add: set_drop_subset)
    also have "\<dots> \<subseteq> set (take dl d)"
      using le by (intro set_take_subset_set_take) simp
    finally have sub: "set ?src \<subseteq> set (take dl d)" .
    have m: "?blks' b p = blks b p \<or> ?blks' b p \<in> set ?src"
      by (rule memcpy_block_cases)
    have "snd (write_loop fe d dl ?blks' (bw + now) (cb + 1) 0) b p = ?blks' b p \<or>
          snd (write_loop fe d dl ?blks' (bw + now) (cb + 1) 0) b p \<in> set (take dl d)"
      using "1.IH"[OF True refl refl refl, folded now_def] le by simp
    then show ?thesis unfolding step using m sub by auto
  qed
qed

lemma strlen_c_str: "strlen (c_str d) = strlen d"
  by (simp add: strlen_def c_str_idem)

lemma write_file_c_str:
  "write_file s fname offset (Some d) = write_file s fname offset (Some (c_str d))"
proof -
  have "\<And>fe blks cb cp. write_loop fe d (strlen d) blks 0 cb cp
          = write_loop fe (c_str d) (strlen d) blks 0 cb cp"
    using write_loop_take[of 0 "strlen d" _ d] by (simp add: c_str_take[symmetric])
  then show ?thesis
    by (simp add: write_file_def strlen_c_str Let_def split: option.splits)
qed

lemma write_file_no_NUL:
  "blocks (snd (write_file s fname offset data)) b p \<noteq> blocks s b p \<Longrightarrow>
   blocks (snd (write_file s fname offset data)) b p \<noteq> NUL"
proof -
  assume ch: "blocks (snd (write_file s fname offset data)) b p \<noteq> blocks s b p"
  then have "snd (write_file s fname offset data) \<noteq> s" by auto
  then obtain nm d fi where h: "fname = Some nm" "data = Some d" "find_file s nm = Some fi"
    by (auto simp: write_file_def Let_def split: option.splits)
  let ?r = "write_loop (file_table s fi) d (strlen d) (blocks s) 0
               (offset div BLOCK_SIZE) (offset mod BLOCK_SIZE)"
  have bl: "blocks (snd (write_file s fname offset data)) = blocks s \<or>
        blocks (snd (write_file s fname offset data)) = snd ?r"
    using h by (auto simp: write_file_def Let_def split: prod.splits)
  then have "blocks (snd (write_file s fname offset data)) = snd ?r" using ch by auto
  moreover have "snd ?r b p = blocks s b p \<or> snd ?r b p \<in> set (take (strlen d) d)"
    by (rule write_loop_bytes) simp
  ultimately have "blocks (snd (write_file s fname offset data)) b p \<in> set (c_str d)"
    using ch by (auto simp: c_str_take)
  then show ?thesis using c_str_no_NUL[of d] by auto
qed

subsection \<open>Cleared blocks and new files\<close>

lemma free_blocks_cleared:
  assumes "b \<in> freed s n bl"
  shows "\<not> block_map (free_blocks s n bl) b"
    and "p < BLOCK_SIZE \<Longrightarrow> blocks (free_blocks s n bl) b p = NUL"
  using assms by (simp_all add: free_blocks_eq clear_block_def)

lemma create_result_zero_bytes:
  assumes inv: "fs_inv s" and sz: "0 < sz" "sz \<le> MAX_FILE_SIZE"
    and fits: "used_blocks s + blocks_needed sz \<le> MAX_BLOCKS"
    and ofs: "ofs < blocks_needed sz * BLOCK_SIZE"
  shows "byte_at (blocks (create_result s nm sz fi)) (file_table (create_result s nm sz fi) fi) ofs
           = NUL"
proof -
  let ?nb = "blocks_needed sz"
  let ?L = "alloc_choice (block_map s) ?nb"
  have nb: "0 < ?nb" using blocks_needed_bounds sz by auto
  have used: "used_blocks s = occupied_count s"
    using inv by (simp add: fs_inv_def counters_agree_def)
  have "?nb \<le> free_count s" using fits used occupied_free_count[of s] by simp
  then have fc: "?nb \<le> length (filter (\<lambda>b. \<not> block_map s b) [0..<MAX_BLOCKS])"
    by (simp add: free_count_def)
  note L = alloc_choice_props[OF nb fc]
  have k: "ofs div BLOCK_SIZE < ?nb"
    using ofs BLOCK_SIZE_pos by (simp add: less_mult_imp_div_less)
  then have "?L ! (ofs div BLOCK_SIZE) \<in> set ?L" using L(1) by simp
  then have free: "?L ! (ofs div BLOCK_SIZE) < MAX_BLOCKS"
    "\<not> block_map s (?L ! (ofs div BLOCK_SIZE))"
    using L(4) by auto
  have "ofs mod BLOCK_SIZE < BLOCK_SIZE" using BLOCK_SIZE_pos by simp
  then have "blocks s (?L ! (ofs div BLOCK_SIZE)) (ofs mod BLOCK_SIZE) = NUL"
    using inv free by (simp add: fs_inv_def free_zero_def)
  then show ?thesis
    using k L(1) by (simp add: byte_at_def create_result_def store_list_def)
qed

lemma create_read_zero:
  assumes inv: "fs_inv s" and ok: "fst (create_file s (Some nm) sz) = Inr ()"
    and nm: "strlen nm < MAX_FILENAME"
    and rd: "offset < sz" "0 < n" "offset + n < SIZE_MOD"
  shows "read_file (snd (create_file s (Some nm) sz)) (Some nm) offset n (Some ())
           = Inr (replicate (min n (sz - offset)) NUL @ [NUL])"
proof -
  have "counters_agree s" "files_wf s" using inv by (simp_all add: fs_inv_def)
  from create_file_cases[OF this, of "Some nm" sz] ok
  obtain fi where h: "0 < sz" "sz \<le> MAX_FILE_SIZE" "find_file s nm = None"
    "find (\<lambda>i. \<not> in_use (file_table s i)) [0..<MAX_FILES] = Some fi"
    "used_blocks s + blocks_needed sz \<le> MAX_BLOCKS"
    "create_file s (Some nm) sz = (Inr (), create_result s nm sz fi)"
    by auto
  let ?s' = "create_result s nm sz fi"
  note slot = find_free_slot[OF h(4)]
  have inv': "fs_inv ?s'"
    using fs_inv_create_result[OF inv h(1,2) _ _ h(5)] slot by simp
  have f': "find_file ?s' nm = Some fi"
    using find_file_created[OF h(3) _ nm] slot by simp
  have size': "size_fe (file_table ?s' fi) = sz" "num_blocks (file_table ?s' fi) = blocks_needed sz"
    by (simp_all add: create_result_def)
  let ?k = "min n (sz - offset)"
  have r: "read_file ?s' (Some nm) offset n (Some ()) =
      Inr (map (byte_at (blocks ?s') (file_table ?s' fi)) [offset..<offset + ?k] @ [NUL])"
    using read_file_ok[OF inv' f' _ rd(2,3)] rd(1) by (simp add: size')
  have "sz \<le> blocks_needed sz * BLOCK_SIZE"
    using file_props(2)[OF inv' f'] by (simp add: size')
  then have "\<And>ofs. ofs \<in> set [offset..<offset + ?k] \<Longrightarrow>
      byte_at (blocks ?s') (file_table ?s' fi) ofs = NUL"
    using create_result_zero_bytes[OF inv h(1,2,5), of _ nm fi] rd(1) by auto
  then have "map (byte_at (blocks ?s') (file_table ?s' fi)) [offset..<offset + ?k]
               = map (\<lambda>ofs. NUL) [offset..<offset + ?k]"
    by (intro map_cong) auto
  then have "map (byte_at (blocks ?s') (file_table ?s' fi)) [offset..<offset + ?k]
               = replicate ?k NUL"
    by (simp add: map_replicate_const)
  then show ?thesis using r h(6) by simp
qed

lemma create_content_zero:
  assumes inv: "fs_inv s" and ok: "fst (create_file s (Some nm) sz) = Inr ()"
    and slot: "find (\<lambda>i. \<not> in_use (file_table s i)) [0..<MAX_FILES] = Some fi"
    and ofs: "ofs < sz"
  shows "in_use (file_table (snd (create_file s (Some nm) sz)) fi)"
    and "size_fe (file_table (snd (create_file s (Some nm) sz)) fi) = sz"
    and "byte_at (blocks (snd (create_file s (Some nm) sz)))
           (file_table (snd (create_file s (Some nm) sz)) fi) ofs = NUL"
proof -
  have "counters_agree s" "files_wf s" using inv by (simp_all add: fs_inv_def)
  from create_file_cases[OF this, of "Some nm" sz] ok slot
  have h: "0 < sz" "sz \<le> MAX_FILE_SIZE" "used_blocks s + blocks_needed sz \<le> MAX_BLOCKS"
    "create_file s (Some nm) sz = (Inr (), create_result s nm sz fi)"
    by auto
  have "sz \<le> blocks_needed sz * BLOCK_SIZE"
    unfolding blocks_needed_def BLOCK_SIZE_def by linarith
  then have "ofs < blocks_needed sz * BLOCK_SIZE" using ofs by linarith
  from create_result_zero_bytes[OF inv h(1,2,3) this, of nm fi]
  show "byte_at (blocks (snd (create_file s (Some nm) sz)))
           (file_table (snd (create_file s (Some nm) sz)) fi) ofs = NUL"
    by (simp add: h(4))
  show "in_use (file_table (snd (create_file s (Some nm) sz)) fi)"
    and "size_fe (file_table (snd (create_file s (Some nm) sz)) fi) = sz"
    by (simp_all add: h(4) create_result_def)
qed

subsection \<open>Failing calls and the rollback of a partial allocation\<close>

lemma create_file_fail_unchanged:
  assumes "fs_inv s" "fst (create_file s fname sz) = Inl e"
  shows "snd (create_file s fname sz) = s"
proof -
  have "counters_agree s" "files_wf s" using assms(1) by (simp_all add: fs_inv_def)
  from create_file_cases[OF this, of fname sz] assms(2) show ?thesis by auto
qed

lemma write_file_fail_unchanged:
  "fst (write_file s fname offset data) = Inl e \<Longrightarrow> snd (write_file s fname offset data) = s"
  by (auto simp: write_file_def Let_def split: option.splits if_splits prod.splits)

lemma delete_file_fail_unchanged:
  "fst (delete_file s fname) = Inl e \<Longrightarrow> snd (delete_file s fname) = s"
  by (auto simp: delete_file_def Let_def split: option.splits)

lemma size_add_lt: "size_add a b < SIZE_MOD"
  by (simp add: size_add_def SIZE_MOD_def)

lemma size_sub_add: "u < SIZE_MOD \<Longrightarrow> size_sub (size_add u 1) 1 = u"
proof -
  assume u: "u < SIZE_MOD"
  have one: "(1::nat) mod SIZE_MOD = 1" by (simp add: SIZE_MOD_def)
  have "size_sub (size_add u 1) 1 = ((u + 1) mod SIZE_MOD + (SIZE_MOD - 1)) mod SIZE_MOD"
    unfolding size_sub_def size_add_def one ..
  also have "\<dots> = ((u + 1) + (SIZE_MOD - 1)) mod SIZE_MOD"
    by (rule mod_add_left_eq)
  also have "(u + 1) + (SIZE_MOD - 1) = u + SIZE_MOD" by (simp add: SIZE_MOD_def)
  also have "(u + SIZE_MOD) mod SIZE_MOD = u" using u by simp
  finally show ?thesis .
qed

lemma funpow_size_add_lt:
  "u < SIZE_MOD \<Longrightarrow> ((\<lambda>u. size_add u 1) ^^ k) u < SIZE_MOD"
  by (induction k) (simp_all add: size_add_lt)

lemma funpow_sub_add:
  "u < SIZE_MOD \<Longrightarrow> ((\<lambda>u. size_sub u 1) ^^ k) (((\<lambda>u. size_add u 1) ^^ k) u) = u"
proof (induction k)
  case 0
  show ?case by simp
next
  case (Suc k)
  let ?f = "\<lambda>u. size_add u 1" and ?g = "\<lambda>u. size_sub u 1"
  have "(?g ^^ Suc k) ((?f ^^ Suc k) u) = ?g ((?g ^^ k) (?f ((?f ^^ k) u)))"
    by simp
  also have "\<dots> = (?g ^^ k) (?g (?f ((?f ^^ k) u)))"
    by (rule funpow_swap1)
  also have "?g (?f ((?f ^^ k) u)) = (?f ^^ k) u"
    using size_sub_add[OF funpow_size_add_lt[OF Suc.prems, of k]] by simp
  also have "(?g ^^ k) ((?f ^^ k) u) = u" using Suc by simp
  finally show ?case .
qed

lemma freed_rollback:
  assumes "distinct F" "\<forall>b \<in> set F. b < MAX_BLOCKS"
    and "block_map s2 = mark bm F"
  shows "freed s2 (length F) (store_list bl 0 F) = set F"
proof -
  have "\<And>i. i < length F \<Longrightarrow> store_list bl 0 F i = F ! i"
    by (simp add: store_list_def)
  then have "freed s2 (length F) (store_list bl 0 F)
      = {b. \<exists>i<length F. F ! i = b \<and> b < MAX_BLOCKS \<and> mark bm F b}"
    unfolding freed_def assms(3) by auto
  also have "\<dots> = {b. \<exists>i<length F. F ! i = b}"
    using assms(2) by (auto simp: mark_def)
  also have "\<dots> = set F" by (auto simp: set_conv_nth)
  finally show ?thesis .
qed

lemma allocate_blocks_partial:
  assumes "allocate_blocks s n bl = (k, bl', s1)" "k < n"
  shows "\<exists>F. distinct F \<and> (\<forall>b \<in> set F. b < MAX_BLOCKS \<and> \<not> block_map s b) \<and>
            k = length F \<and> bl' = store_list bl 0 F \<and>
            s1 = s\<lparr>block_map := mark (block_map s) F,
                   used_blocks := ((\<lambda>u. size_add u 1) ^^ k) (used_blocks s)\<rparr>"
proof -
  have empty: "store_list bl 0 [] = bl" "mark (block_map s) [] = block_map s"
    by (auto simp: store_list_def mark_def fun_eq_iff)
  show ?thesis
  proof (cases "n = 0 \<or> n > MAX_BLOCKS \<or> size_add (used_blocks s) n > MAX_BLOCKS")
    case True
    then have "allocate_blocks s n bl = (0, bl, s)" by (auto simp: allocate_blocks_def)
    then show ?thesis using assms(1) empty by (intro exI[of _ "[]"]) auto
  next
    case False
    then have n: "0 < n" by simp
    show ?thesis
    proof (cases "find (\<lambda>i. free_run (block_map s) i n) [0..<MAX_BLOCKS]")
      case (Some i)
      then have "fst (allocate_blocks s n bl) = n"
        using False alloc_consecutive_eq[OF n, of s bl 0] by (simp add: allocate_blocks_def)
      then show ?thesis using assms by simp
    next
      case None
      let ?F = "take n (free_from (block_map s) 0)"
      have "allocate_blocks s n bl = alloc_scattered s n bl 0 0"
        using None False alloc_consecutive_eq[OF n, of s bl 0] by (simp add: allocate_blocks_def)
      also have "\<dots> = (length ?F, store_list bl 0 ?F,
         s\<lparr>block_map := mark (block_map s) ?F,
           used_blocks := ((\<lambda>u. size_add u 1) ^^ length ?F) (used_blocks s)\<rparr>)"
        using alloc_scattered_eq[of 0 n s bl 0] by (simp add: Let_def)
      finally have r: "k = length ?F" "bl' = store_list bl 0 ?F"
        "s1 = s\<lparr>block_map := mark (block_map s) ?F,
           used_blocks := ((\<lambda>u. size_add u 1) ^^ length ?F) (used_blocks s)\<rparr>"
        using assms(1) by simp_all
      have "distinct ?F" by (simp add: free_from_def)
      moreover have "\<forall>b \<in> set ?F. b < MAX_BLOCKS \<and> \<not> block_map s b"
        using free_from_ge[of _ "block_map s" 0] by (auto dest: in_set_takeD)
      ultimately show ?thesis using r by (intro exI[of _ ?F]) simp
    qed
  qed
qed

lemma create_file_rollback:
  assumes "fst (create_file s fname sz) = Inl e"
  shows "block_map (snd (create_file s fname sz)) = block_map s"
    and "used_blocks s < SIZE_MOD \<Longrightarrow> used_blocks (snd (create_file s fname sz)) = used_blocks s"
proof -
  have "block_map (snd (create_file s fname sz)) = block_map s \<and>
        (used_blocks s < SIZE_MOD \<longrightarrow> used_blocks (snd (create_file s fname sz)) = used_blocks s)"
  proof (cases "snd (create_file s fname sz) = s")
    case True
    then show ?thesis by simp
  next
    case False
    then obtain nm fi where h: "fname = Some nm"
      "find (\<lambda>i. \<not> in_use (file_table s i)) [0..<MAX_FILES] = Some fi"
      by (auto simp: create_file_def Let_def split: option.splits if_splits)
    let ?nb = "(sz + BLOCK_SIZE - 1) div BLOCK_SIZE"
    let ?bl = "blocks_fe (file_table s fi)"
    obtain k bl' s1 where al: "allocate_blocks s ?nb ?bl = (k, bl', s1)"
      by (cases "allocate_blocks s ?nb ?bl") auto
    let ?s2 = "s1\<lparr>file_table := (file_table s1)(fi := (file_table s1 fi)\<lparr>blocks_fe := bl'\<rparr>)\<rparr>"
    have res: "k < ?nb" "snd (create_file s fname sz) = (if k > 0 then free_blocks ?s2 k bl' else ?s2)"
      using False assms h al
      by (auto simp: create_file_def Let_def split: option.splits if_splits)
    have fb0: "free_blocks ?s2 0 bl' = ?s2" by (simp add: free_blocks_def)
    have res': "snd (create_file s fname sz) = free_blocks ?s2 k bl'"
      using res(2) fb0 by (cases "k > 0") simp_all
    from allocate_blocks_partial[OF al res(1)] obtain F where
      F: "distinct F" "\<forall>b \<in> set F. b < MAX_BLOCKS \<and> \<not> block_map s b" "k = length F"
        "bl' = store_list ?bl 0 F"
        "s1 = s\<lparr>block_map := mark (block_map s) F,
                used_blocks := ((\<lambda>u. size_add u 1) ^^ k) (used_blocks s)\<rparr>"
      by blast
    have bm2: "block_map ?s2 = mark (block_map s) F" using F(5) by simp
    have "\<forall>b \<in> set F. b < MAX_BLOCKS" using F(2) by simp
    from freed_rollback[OF F(1) this bm2, of ?bl]
    have fr: "freed ?s2 k bl' = set F"
      by (simp add: F(3,4))
    have "block_map (free_blocks ?s2 k bl') = block_map s"
      unfolding free_blocks_eq fr using F(2) by (auto simp: bm2 mark_def fun_eq_iff)
    moreover have "used_blocks (free_blocks ?s2 k bl')
        = ((\<lambda>u. size_sub u 1) ^^ k) (((\<lambda>u. size_add u 1) ^^ k) (used_blocks s))"
      unfolding free_blocks_eq fr using F(1,3,5) by (simp add: distinct_card)
    ultimately show ?thesis
      using res' funpow_sub_add[of "used_blocks s" k] by simp
  qed
  then show "block_map (snd (create_file s fname sz)) = block_map s"
    and "used_blocks s < SIZE_MOD \<Longrightarrow> used_blocks (snd (create_file s fname sz)) = used_blocks s"
    by simp_all
qed

subsection \<open>The undercounted pool; more on \<open>fs1\<close>\<close>

lemma undercounted_fields:
  "block_map undercounted = block_map fragmented" "used_blocks undercounted = 0"
  "num_files undercounted = 0" "\<not> in_use (file_table undercounted i)"
  by (simp_all add: undercounted_def fragmented_def zero_storage_def)

lemma find_file_undercounted: "find_file undercounted nm = None"
  by (simp add: find_file_def find_None_iff undercounted_fields)

lemma free_slot_undercounted:
  "find (\<lambda>i. \<not> in_use (file_table undercounted i)) [0..<MAX_FILES] = Some 0"
proof -
  have "[0..<MAX_FILES] = 0 # [Suc 0..<MAX_FILES]"
    by (rule upt_conv_Cons) (simp add: MAX_FILES_def)
  then show ?thesis by (simp add: undercounted_fields)
qed

lemma no_run_fragmented: "find (\<lambda>i. free_run (block_map fragmented) i 3) [0..<MAX_BLOCKS] = None"
proof -
  have "\<And>i. \<not> free_run (block_map fragmented) i 3"
  proof
    fix i assume "free_run (block_map fragmented) i 3"
    then have r: "\<forall>j\<in>{0..<3}. \<not> block_map fragmented (i + j)"
      by (simp add: free_run_def)
    have "(0::nat) \<in> {0..<3}" "(1::nat) \<in> {0..<3}" by simp_all
    then have "\<not> block_map fragmented (i + 0)" "\<not> block_map fragmented (i + 1)"
      using r by blast+
    then show False by (auto simp: fragmented_def)
  qed
  then show ?thesis by (simp add: find_None_iff)
qed

lemma allocate_undercounted: "fst (allocate_blocks undercounted 3 bl) = 2"
proof -
  have pre: "\<not> (3 = (0::nat) \<or> 3 > MAX_BLOCKS)" "\<not> size_add (used_blocks undercounted) 3 > MAX_BLOCKS"
    by (simp_all add: MAX_BLOCKS_eq undercounted_fields size_add_def SIZE_MOD_def)
  have "alloc_consecutive undercounted 3 bl 0 = None"
    using alloc_consecutive_eq[of 3 undercounted bl 0] no_run_fragmented
    by (simp add: undercounted_fields)
  then have "allocate_blocks undercounted 3 bl = alloc_scattered undercounted 3 bl 0 0"
    using pre by (simp add: allocate_blocks_def)
  moreover have "take 3 (free_from (block_map undercounted) 0) = [0, 2]"
    using free_fragmented by (simp add: free_from_def undercounted_fields)
  ultimately show ?thesis
    using alloc_scattered_eq[of 0 3 undercounted bl 0] by (simp add: Let_def)
qed

lemma create_undercounted: "fst (create_file undercounted (Some ''f'') 1025) = Inl AllocFailed"
proof -
  have nb: "(1024 + BLOCK_SIZE) div BLOCK_SIZE = 3" by (simp add: BLOCK_SIZE_def)
  have sp: "\<not> size_add (used_blocks undercounted) 3 > MAX_BLOCKS"
    by (simp add: MAX_BLOCKS_eq undercounted_fields size_add_def SIZE_MOD_def)
  have nf: "\<not> num_files undercounted \<ge> MAX_FILES"
    by (simp add: undercounted_fields MAX_FILES_def)
  have sz: "\<not> 1025 > MAX_FILE_SIZE" by (simp add: MAX_FILE_SIZE_def)
  show ?thesis
    using allocate_undercounted[of "blocks_fe (file_table undercounted 0)"] sp nf sz
    by (auto simp: create_file_def Let_def nb strlen_f find_file_undercounted
        free_slot_undercounted split: prod.splits)
qed

lemma find_file_fs1_other: "find_file fs1 ''g'' = None"
proof -
  have "c_str (filename (file_table fs1 0)) \<noteq> c_str ''g''"
    by (simp add: fs1_result create_result_def strlen_f MAX_FILENAME_def c_str_def NUL_def)
  moreover have "\<And>i. i \<noteq> 0 \<Longrightarrow> \<not> in_use (file_table fs1 i)"
    by (simp add: fs1_result create_result_def fs0_not_in_use)
  ultimately show ?thesis
    unfolding find_file_def find_None_iff by (metis)
qed

lemma blocks_fs1: "blocks fs1 b p = NUL"
  by (simp add: fs1_result create_result_def fs0_def blocks_init zero_storage_def)

subsection \<open>The example states \<open>fs3\<close>, \<open>fs4\<close> and \<open>fs5\<close>\<close>

lemma first_run_Some:
  assumes "i < MAX_BLOCKS" "free_run bm i n" "\<And>j. j < i \<Longrightarrow> \<not> free_run bm j n"
  shows "first_run bm n = Some i"
  unfolding first_run_def find_Some_iff
  using assms by (intro exI[of _ i]) simp

lemma free_slot_at:
  assumes "fi < MAX_FILES" "\<not> in_use (file_table s fi)" "\<And>j. j < fi \<Longrightarrow> in_use (file_table s j)"
  shows "find (\<lambda>i. \<not> in_use (file_table s i)) [0..<MAX_FILES] = Some fi"
  unfolding find_Some_iff
  using assms by (intro exI[of _ fi]) simp

lemma block_map_fs0: "block_map fs0 b = False"
  by (simp add: fs0_def block_map_init zero_storage_def)

lemma blocks_needed_values: "blocks_needed 10 = 1" "blocks_needed 600 = 2"
  by (simp_all add: blocks_needed_def BLOCK_SIZE_def)

lemma alloc_choice_fs0: "alloc_choice (block_map fs0) 1 = [0]"
proof -
  have "first_run (block_map fs0) 1 = Some 0"
    by (rule first_run_Some) (simp_all add: MAX_BLOCKS_eq free_run_def block_map_fs0)
  then show ?thesis by (simp add: alloc_choice_def)
qed

lemma fs1_entry:
  "in_use (file_table fs1 0)" "num_blocks (file_table fs1 0) = 1"
  "blocks_fe (file_table fs1 0) 0 = 0" "i \<noteq> 0 \<Longrightarrow> \<not> in_use (file_table fs1 i)"
  using alloc_choice_fs0
  by (simp_all add: fs1_result create_result_def blocks_needed_values
      store_list_def fs0_not_in_use)

lemma block_map_fs1: "block_map fs1 b = (b = 0)"
  using alloc_choice_fs0
  by (simp add: fs1_result create_result_def blocks_needed_values mark_def block_map_fs0)

lemma counters_fs1: "num_files fs1 = 1" "used_blocks fs1 = 1"
  by (simp_all add: fs1_result create_result_def blocks_needed_values fs0_counters)

lemma fs2_state: "\<exists>blks. fs2 = fs1\<lparr>blocks := blks\<rparr>"
  unfolding fs2_def using write_file_state[of fs1 "Some ''f''" 0 "Some ''0123456789''"] by blast

lemma fs2_fields:
  "block_map fs2 = block_map fs1" "num_files fs2 = 1" "used_blocks fs2 = 1"
proof -
  obtain blks where e: "fs2 = fs1\<lparr>blocks := blks\<rparr>" using fs2_state by blast
  show "block_map fs2 = block_map fs1" "num_files fs2 = 1" "used_blocks fs2 = 1"
    by (simp_all add: e counters_fs1)
qed

lemma fs_inv_fs2: "fs_inv fs2"
  unfolding fs2_def fs1_def fs0_def by (intro reachable_fs_inv reachable.intros)

lemma blocks_fs2: "blocks fs2 0 0 = CHR ''0''"
  using fs2_bytes[of 0] by (simp add: byte_at_def fs2_table fs1_entry)

lemma blocks_fs2_at:
  assumes "p < 10"
  shows "blocks fs2 0 p = ''0123456789'' ! p"
proof -
  have "p div BLOCK_SIZE = 0" "p mod BLOCK_SIZE = p" using assms by (simp_all add: BLOCK_SIZE_def)
  then show ?thesis
    using fs2_bytes[OF assms] by (simp add: byte_at_def fs2_table fs1_entry)
qed

lemma strlen_g: "strlen ''g'' = 1" "strlen ''h'' = 1"
  by (simp_all add: strlen_def c_str_def NUL_def)

lemma fs3_eq: "create_file fs2 (Some ''g'') 600 = (Inr (), create_result fs2 ''g'' 600 1)"
proof (rule create_file_ok)
  show "counters_agree fs2" "files_wf fs2" using fs_inv_fs2 by (simp_all add: fs_inv_def)
  show "strlen ''g'' \<noteq> 0" by (simp add: strlen_g)
  show "(0::nat) < 600" by simp
  show "600 \<le> MAX_FILE_SIZE" by (simp add: MAX_FILE_SIZE_def)
  show "find_file fs2 ''g'' = None"
    using find_file_table_cong[OF fs2_table] find_file_fs1_other by simp
  show "num_files fs2 < MAX_FILES" by (simp add: fs2_fields MAX_FILES_def)
  show "used_blocks fs2 + blocks_needed 600 \<le> MAX_BLOCKS"
    by (simp add: fs2_fields blocks_needed_values MAX_BLOCKS_eq)
  show "find (\<lambda>i. \<not> in_use (file_table fs2 i)) [0..<MAX_FILES] = Some 1"
    by (rule free_slot_at) (simp_all add: MAX_FILES_def fs2_table fs1_entry)
qed

lemma fs3_result: "fs3 = create_result fs2 ''g'' 600 1"
  by (simp add: fs3_def fs3_eq)

lemma alloc_choice_fs2: "alloc_choice (block_map fs2) 2 = [1, 2]"
proof -
  have "first_run (block_map fs2) 2 = Some 1"
  proof (rule first_run_Some)
    show "1 < MAX_BLOCKS" by (simp add: MAX_BLOCKS_eq)
    show "free_run (block_map fs2) 1 2"
      by (simp add: free_run_def fs2_fields block_map_fs1 MAX_BLOCKS_eq)
    fix j :: nat assume "j < 1"
    then have "j = 0" by simp
    moreover have "(0::nat) \<in> {0..<2}" by simp
    ultimately show "\<not> free_run (block_map fs2) j 2"
      unfolding free_run_def by (auto simp: fs2_fields block_map_fs1 intro!: bexI[of _ 0])
  qed
  moreover have "[1..<1 + 2] = [1, 2::nat]" by (simp add: upt_rec_numeral)
  ultimately show ?thesis by (simp add: alloc_choice_def)
qed

lemma fs3_entries:
  "in_use (file_table fs3 0)" "in_use (file_table fs3 1)"
  "num_blocks (file_table fs3 0) = 1" "num_blocks (file_table fs3 1) = 2"
  "blocks_fe (file_table fs3 0) 0 = 0"
  "blocks_fe (file_table fs3 1) 0 = 1" "blocks_fe (file_table fs3 1) 1 = 2"
  by (simp_all add: fs3_result create_result_def blocks_needed_values alloc_choice_fs2
      store_list_def fs2_table fs1_entry)

lemma reachable_fs3: "reachable fs3"
  unfolding fs3_def fs2_def fs1_def fs0_def by (intro reachable.intros)

lemma fs4_eq: "delete_file fs2 (Some ''f'') = (Inr (), delete_result fs2 0)"
  by (simp add: delete_file_def delete_result_def find_file_fs2 Let_def)

lemma reachable_fs4: "reachable fs4"
  unfolding fs4_def fs2_def fs1_def fs0_def by (intro reachable.intros)

lemma freed_fs2: "freed fs2 1 (blocks_fe (file_table fs2 0)) = {0}"
  by (auto simp: freed_def fs2_table fs1_entry fs2_fields block_map_fs1 MAX_BLOCKS_eq)

lemma block_map_fs4: "block_map fs4 b = False"
  using freed_fs2
  by (simp add: fs4_def fs4_eq delete_result_def Let_def free_blocks_eq fs2_table fs1_entry
      fs2_fields block_map_fs1)

lemma fs4_not_in_use: "\<not> in_use (file_table fs4 i)"
  by (cases "i = 0")
    (simp_all add: fs4_def fs4_eq delete_result_def Let_def free_blocks_eq fs2_table fs1_entry)

lemma fs4_counters: "num_files fs4 = 0" "used_blocks fs4 = 0"
proof -
  have ca: "counters_agree fs4"
    using reachable_fs_inv[OF reachable_fs4] by (simp add: fs_inv_def)
  have "live_count fs4 = 0"
    by (simp add: live_count_def filter_empty_conv fs4_not_in_use)
  then show "num_files fs4 = 0" using ca by (simp add: counters_agree_def)
  have "occupied_count fs4 = 0"
    by (simp add: occupied_count_def filter_empty_conv block_map_fs4)
  then show "used_blocks fs4 = 0" using ca by (simp add: counters_agree_def)
qed

lemma free_slot_fs4: "find (\<lambda>i. \<not> in_use (file_table fs4 i)) [0..<MAX_FILES] = Some 0"
  by (rule free_slot_at) (simp_all add: MAX_FILES_def fs4_not_in_use)

lemma fs5_eq: "create_file fs4 (Some ''h'') 10 = (Inr (), create_result fs4 ''h'' 10 0)"
proof (rule create_file_ok)
  show "counters_agree fs4" "files_wf fs4"
    using reachable_fs_inv[OF reachable_fs4] by (simp_all add: fs_inv_def)
  show "strlen ''h'' \<noteq> 0" by (simp add: strlen_g)
  show "(0::nat) < 10" by simp
  show "10 \<le> MAX_FILE_SIZE" by (simp add: MAX_FILE_SIZE_def)
  show "find_file fs4 ''h'' = None"
    by (simp add: find_file_def find_None_iff fs4_not_in_use)
  show "num_files fs4 < MAX_FILES" by (simp add: fs4_counters MAX_FILES_def)
  show "used_blocks fs4 + blocks_needed 10 \<le> MAX_BLOCKS"
    by (simp add: fs4_counters blocks_needed_values MAX_BLOCKS_eq)
  show "find (\<lambda>i. \<not> in_use (file_table fs4 i)) [0..<MAX_FILES] = Some 0"
    by (rule free_slot_fs4)
qed

lemma fs5_block: "blocks_fe (file_table fs5 0) 0 = 0"
proof -
  have "first_run (block_map fs4) 1 = Some 0"
    by (rule first_run_Some) (simp_all add: MAX_BLOCKS_eq free_run_def block_map_fs4)
  then have "alloc_choice (block_map fs4) 1 = [0]" by (simp add: alloc_choice_def)
  then show ?thesis
    by (simp add: fs5_def fs5_eq create_result_def blocks_needed_values store_list_def)
qed

subsection \<open>The entry left by a partial allocation\<close>

lemma file_table_free_blocks: "file_table (free_blocks s n bl) = file_table s"
  by (subst free_blocks_eq) simp

lemma allocate_undercounted_list:
  "fst (snd (allocate_blocks undercounted 3 bl)) = store_list bl 0 [0, 2]"
proof -
  have pre: "\<not> (3 = (0::nat) \<or> 3 > MAX_BLOCKS)" "\<not> size_add (used_blocks undercounted) 3 > MAX_BLOCKS"
    by (simp_all add: MAX_BLOCKS_eq undercounted_fields size_add_def SIZE_MOD_def)
  have "alloc_consecutive undercounted 3 bl 0 = None"
    using alloc_consecutive_eq[of 3 undercounted bl 0] no_run_fragmented
    by (simp add: undercounted_fields)
  then have "allocate_blocks undercounted 3 bl = alloc_scattered undercounted 3 bl 0 0"
    using pre by (simp add: allocate_blocks_def)
  moreover have "take 3 (free_from (block_map undercounted) 0) = [0, 2]"
    using free_fragmented by (simp add: free_from_def undercounted_fields)
  ultimately show ?thesis
    using alloc_scattered_eq[of 0 3 undercounted bl 0] by (simp add: Let_def)
qed

lemma create_undercounted_slot:
  "blocks_fe (file_table (snd (create_file undercounted (Some ''f'') 1025)) 0) 1 = 2"
  "blocks_fe (file_table undercounted 0) 1 = 0"
proof -
  let ?bl = "blocks_fe (file_table undercounted 0)"
  obtain k bl' s1 where al: "allocate_blocks undercounted 3 ?bl = (k, bl', s1)"
    by (cases "allocate_blocks undercounted 3 ?bl") auto
  have k: "k = 2" using allocate_undercounted[of ?bl] al by simp
  have bl': "bl' = store_list ?bl 0 [0, 2]" using allocate_undercounted_list[of ?bl] al by simp
  have nb: "(1024 + BLOCK_SIZE) div BLOCK_SIZE = 3" by (simp add: BLOCK_SIZE_def)
  have sp: "\<not> size_add (used_blocks undercounted) 3 > MAX_BLOCKS"
    by (simp add: MAX_BLOCKS_eq undercounted_fields size_add_def SIZE_MOD_def)
  have nf: "\<not> num_files undercounted \<ge> MAX_FILES"
    by (simp add: undercounted_fields MAX_FILES_def)
  have sz: "\<not> 1025 > MAX_FILE_SIZE" by (simp add: MAX_FILE_SIZE_def)
  have "file_table (snd (create_file undercounted (Some ''f'') 1025)) 0
          = (file_table s1 0)\<lparr>blocks_fe := bl'\<rparr>"
    using al k sp nf sz
    by (auto simp: create_file_def Let_def nb strlen_f find_file_undercounted
        free_slot_undercounted file_table_free_blocks)
  then show "blocks_fe (file_table (snd (create_file undercounted (Some ''f'') 1025)) 0) 1 = 2"
    by (simp add: bl' store_list_def)
  show "blocks_fe (file_table undercounted 0) 1 = 0"
    by (simp add: undercounted_def fragmented_def zero_storage_def)
qed

section \<open>Properties\<close>

lemma reachable_fs1: "reachable fs1"
  unfolding fs1_def fs0_def by (intro reachable.intros)

lemma reachable_fs2: "reachable fs2"
  unfolding fs2_def by (intro reachable.r_write reachable_fs1)




text \<open>
  C2: in every state reachable from \<open>init_filesystem\<close> by \<open>create_file\<close>,
  \<open>write_file\<close>, \<open>read_file\<close>, \<open>delete_file\<close> and \<open>list_files\<close> calls, the cached
  counters agree with a recount: the sum of \<open>num_blocks\<close> over the entries in use equals
  the number of true entries of \<open>block_map\<close> and equals \<open>used_blocks\<close>, \<open>num_files\<close> is
  the number of entries in use, and \<open>total_storage\<close> is the sum of their sizes.
\<close>

theorem counters_agree_reachable:
  "reachable s \<Longrightarrow>
     blocks_sum s = occupied_count s \<and> occupied_count s = used_blocks s \<and>
     num_files s = live_count s \<and> total_storage s = storage_sum s"
  using reachable_fs_inv[of s] by (simp add: fs_inv_def counters_agree_def)

theorem counters_agree_reachable_witness:
  "reachable fs2 \<and>
     blocks_sum fs2 = occupied_count fs2 \<and> occupied_count fs2 = used_blocks fs2 \<and>
     num_files fs2 = live_count fs2 \<and> total_storage fs2 = storage_sum fs2"
  using counters_agree_reachable[OF reachable_fs2] reachable_fs2 by simp

text \<open>
  C3: in every reachable state no block index appears in the block lists (the first
  \<open>num_blocks\<close> entries of \<open>blocks\<close>) of two distinct entries in use, and every block
  index listed by an entry in use is inside the pool and marked occupied in
  \<open>block_map\<close>. Reachability covers every operation, so each of them preserves this.
\<close>

theorem blocks_exclusive_reachable:
  "reachable s \<Longrightarrow> blocks_exclusive s \<and> blocks_occupied s"
  using reachable_fs_inv[of s] by (simp add: fs_inv_def)

theorem blocks_exclusive_reachable_witness:
  "reachable fs3 \<and> in_use (file_table fs3 0) \<and> in_use (file_table fs3 1) \<and>
   num_blocks (file_table fs3 0) = 1 \<and> num_blocks (file_table fs3 1) = 2 \<and>
   blocks_fe (file_table fs3 0) 0 = 0 \<and>
   blocks_fe (file_table fs3 1) 0 = 1 \<and> blocks_fe (file_table fs3 1) 1 = 2 \<and>
   blocks_exclusive fs3 \<and> blocks_occupied fs3 \<and>
   block_map fs3 0 \<and> block_map fs3 1 \<and> block_map fs3 2"
proof -
  have ex: "blocks_exclusive fs3" and oc: "blocks_occupied fs3"
    using blocks_exclusive_reachable[OF reachable_fs3] by simp_all
  have f: "(0::nat) < MAX_FILES" "(1::nat) < MAX_FILES" by (simp_all add: MAX_FILES_def)
  have "block_map fs3 (blocks_fe (file_table fs3 0) 0)"
    using blocks_occupiedD[OF oc f(1) fs3_entries(1), of 0] fs3_entries by simp
  moreover have "block_map fs3 (blocks_fe (file_table fs3 1) 0)"
    using blocks_occupiedD[OF oc f(2) fs3_entries(2), of 0] fs3_entries by simp
  moreover have "block_map fs3 (blocks_fe (file_table fs3 1) 1)"
    using blocks_occupiedD[OF oc f(2) fs3_entries(2), of 1] fs3_entries by simp
  ultimately show ?thesis
    using ex oc reachable_fs3 fs3_entries by simp
qed

text \<open>
  C4: for every \<open>n\<close> with \<open>0 < n \<le> MAX_BLOCKS\<close> and every state whose counter
  \<open>used_blocks\<close> agrees with \<open>block_map\<close> and in which at least \<open>n\<close> blocks are free,
  \<open>allocate_blocks\<close> returns \<open>n\<close> and stores \<open>n\<close> block indices: the first ascending
  run of \<open>n\<close> consecutive free blocks if there is one (\<open>first_run\<close>), and otherwise the
  first \<open>n\<close> free blocks in ascending order (\<open>first_free\<close>), of which there are \<open>n\<close>.
  It marks exactly these blocks and adds \<open>n\<close> to \<open>used_blocks\<close>.
\<close>

theorem allocate_blocks_spec:
  assumes "0 < n" "n \<le> MAX_BLOCKS" "used_blocks s = occupied_count s" "n \<le> free_count s"
  shows "fst (allocate_blocks s n bl) = n \<and>
         map (fst (snd (allocate_blocks s n bl))) [0..<n] =
           (case first_run (block_map s) n of
              Some i \<Rightarrow> [i..<i + n]
            | None \<Rightarrow> first_free (block_map s) n) \<and>
         length (first_free (block_map s) n) = n \<and>
         snd (snd (allocate_blocks s n bl)) =
           s\<lparr>block_map := mark (block_map s) (map (fst (snd (allocate_blocks s n bl))) [0..<n]),
             used_blocks := used_blocks s + n\<rparr>"
proof -
  have fits: "used_blocks s + n \<le> MAX_BLOCKS"
    using assms(3,4) occupied_free_count[of s] by simp
  have fc: "n \<le> length (filter (\<lambda>b. \<not> block_map s b) [0..<MAX_BLOCKS])"
    using assms(4) by (simp add: free_count_def)
  have len: "length (alloc_choice (block_map s) n) = n"
    by (rule alloc_choice_props(1)[OF assms(1) fc])
  have "length (first_free (block_map s) n) = n"
    using fc by (simp add: first_free_def)
  then show ?thesis
    unfolding allocate_blocks_ok[OF assms(1) fits assms(4)]
    using map_store_list[OF len, of bl] by (simp add: alloc_choice_def)
qed

theorem allocate_blocks_spec_witness:
  "(0::nat) < 2 \<and> 2 \<le> MAX_BLOCKS \<and> used_blocks fragmented = occupied_count fragmented \<and>
   2 \<le> free_count fragmented \<and> first_run (block_map fragmented) 2 = None \<and>
   fst (allocate_blocks fragmented 2 (\<lambda>k. 0)) = 2 \<and>
   map (fst (snd (allocate_blocks fragmented 2 (\<lambda>k. 0)))) [0..<2] = [0, 2]"
proof -
  have h: "(0::nat) < 2" "2 \<le> MAX_BLOCKS" "used_blocks fragmented = occupied_count fragmented"
    "2 \<le> free_count fragmented"
    by (simp_all add: MAX_BLOCKS_eq occupied_count_fragmented free_count_fragmented)
      (simp add: fragmented_def)
  have "first_free (block_map fragmented) 2 = [0, 2]"
    by (simp add: first_free_def free_fragmented)
  then show ?thesis
    using allocate_blocks_spec[OF h, of "\<lambda>k. 0"] h first_run_fragmented by simp
qed

text \<open>
  C5 (as amended): \<open>read_file\<close> refuses a request for zero bytes before it looks at the
  offset, so its offset check is stated for requests of at least one byte. For every
  existing file of size \<open>S\<close>: \<open>write_file\<close> at offset \<open>O\<close> fails in its offset check
  exactly when \<open>O > S\<close>, and a write of the empty string at \<open>O = S\<close> succeeds, writes
  0 bytes and leaves the state as it is; \<open>read_file\<close> at offset \<open>O\<close> for \<open>n > 0\<close> bytes fails
  in its offset check exactly when \<open>O \<ge> S\<close>. A read of 0 bytes fails with the diagnostic
  for invalid parameters, whatever the offset and the buffer.
\<close>

theorem eof_boundary_checks:
  assumes "find_file s nm = Some fi"
  shows "(fst (write_file s (Some nm) offset (Some d)) = Inl OffsetBeyondSize)
            = (offset > size_fe (file_table s fi)) \<and>
         write_file s (Some nm) (size_fe (file_table s fi)) (Some []) = (Inr 0, s) \<and>
         (0 < n \<longrightarrow>
            (read_file s (Some nm) offset n (Some ()) = Inl OffsetBeyondSize)
              = (offset \<ge> size_fe (file_table s fi))) \<and>
         read_file s (Some nm) offset 0 buf = Inl InvalidParams"
proof (intro conjI impI)
  show "read_file s (Some nm) offset 0 buf = Inl InvalidParams"
    by (simp add: read_file_def split: option.splits)
  show "(fst (write_file s (Some nm) offset (Some d)) = Inl OffsetBeyondSize)
            = (offset > size_fe (file_table s fi))"
    using assms by (auto simp: write_file_def Let_def split: prod.splits)
  show "write_file s (Some nm) (size_fe (file_table s fi)) (Some []) = (Inr 0, s)"
    using write_file_empty_at[OF assms] by simp
  assume "0 < n"
  then show "(read_file s (Some nm) offset n (Some ()) = Inl OffsetBeyondSize)
              = (offset \<ge> size_fe (file_table s fi))"
    using assms by (auto simp: read_file_def Let_def split: option.splits)
qed

theorem eof_boundary_checks_witness:
  "find_file fs1 ''f'' = Some 0 \<and> size_fe (file_table fs1 0) = 10 \<and>
   fst (write_file fs1 (Some ''f'') 11 (Some ''abc'')) = Inl OffsetBeyondSize \<and>
   fst (write_file fs1 (Some ''f'') 10 (Some ''abc'')) \<noteq> Inl OffsetBeyondSize \<and>
   write_file fs1 (Some ''f'') 10 (Some []) = (Inr 0, fs1) \<and>
   read_file fs1 (Some ''f'') 10 1 (Some ()) = Inl OffsetBeyondSize \<and>
   read_file fs1 (Some ''f'') 9 1 (Some ()) \<noteq> Inl OffsetBeyondSize \<and>
   read_file fs1 (Some ''f'') 9 0 (Some ()) = Inl InvalidParams \<and>
   read_file fs1 (Some ''f'') 11 0 (Some ()) = Inl InvalidParams"
  using eof_boundary_checks[OF find_file_fs1, where offset = 11 and d = "''abc''" and n = 1
      and buf = "Some ()"]
    eof_boundary_checks[OF find_file_fs1, where offset = 10 and d = "''abc''" and n = 1
      and buf = "Some ()"]
    eof_boundary_checks[OF find_file_fs1, where offset = 9 and d = "''abc''" and n = 1
      and buf = "Some ()"]
  by (simp add: find_file_fs1 size_fs1)

text \<open>
  C5 as stated fails for a read of zero bytes: on the file \<open>f\<close> of size 10 such a read
  fails with the diagnostic for invalid parameters at offset 5, which is below the size,
  and at offset 10 it fails with that diagnostic and not with the one of the offset check.
\<close>

theorem eof_boundary_zero_read_counterexample:
  "find_file fs1 ''f'' = Some 0 \<and> size_fe (file_table fs1 0) = 10 \<and>
   read_file fs1 (Some ''f'') 5 0 (Some ()) = Inl InvalidParams \<and>
   read_file fs1 (Some ''f'') 10 0 (Some ()) = Inl InvalidParams"
  by (simp add: find_file_fs1 size_fs1 read_file_def)

text \<open>
  C7 (as amended): \<open>write_file\<close> returns the status 0 on success, not a count. On every
  successful call in a reachable state the function returns 0, and the number of bytes
  written, which it prints, equals \<open>strlen\<close> of the supplied data: the length of the data
  up to its first zero byte.
\<close>

theorem write_file_result:
  assumes "reachable s" "fst (write_file s fname offset data) = Inr k"
  shows "ret_code (fst (write_file s fname offset data)) = 0 \<and>
         (\<exists>d. data = Some d \<and> k = strlen d)"
proof -
  from write_file_Inr[OF assms(2)] obtain nm d fi where
    h: "fname = Some nm" "data = Some d" "find_file s nm = Some fi"
       "offset + strlen d \<le> size_fe (file_table s fi)"
    by blast
  have "fst (write_file s fname offset data) = Inr (strlen d)"
    using write_file_ok(1)[OF reachable_fs_inv[OF assms(1)] h(3,4)] h(1,2) by simp
  then show ?thesis using assms(2) h(2) by (simp add: ret_code_def)
qed

theorem write_file_result_witness:
  "reachable fs1 \<and> fst (write_file fs1 (Some ''f'') 2 (Some ''abc'')) = Inr 3 \<and>
   ret_code (fst (write_file fs1 (Some ''f'') 2 (Some ''abc''))) = 0 \<and> strlen ''abc'' = 3"
proof -
  have w: "fst (write_file fs1 (Some ''f'') 2 (Some ''abc'')) = Inr 3"
    using write_file_ok(1)[OF fs_inv_fs1 find_file_fs1, of 2 "''abc''"]
    by (simp add: strlen_digits size_fs1)
  show ?thesis
    using write_file_result[OF reachable_fs1 w] reachable_fs1 w by (simp add: strlen_digits)
qed

text \<open>
  C7 as stated fails: writing the three bytes \<open>abc\<close> at offset 0 of the file \<open>f\<close>
  succeeds and writes 3 bytes, and the function returns 0, which is not the length of
  the data.
\<close>

theorem write_file_returns_status_counterexample:
  "fst (write_file fs1 (Some ''f'') 0 (Some ''abc'')) = Inr 3 \<and>
   ret_code (fst (write_file fs1 (Some ''f'') 0 (Some ''abc''))) = 0 \<and>
   ret_code (fst (write_file fs1 (Some ''f'') 0 (Some ''abc''))) \<noteq> int (length ''abc'')"
proof -
  have "fst (write_file fs1 (Some ''f'') 0 (Some ''abc'')) = Inr 3"
    using write_file_ok(1)[OF fs_inv_fs1 find_file_fs1, of 0 "''abc''"]
    by (simp add: strlen_digits size_fs1)
  then show ?thesis by (simp add: ret_code_def)
qed




text \<open>
  The bound on \<open>O + n\<close> in C8 cannot be dropped: for the largest requests the sum in the
  test before the clamp wraps around, the request is not cut down to the rest of the
  file, and here the copy would run past the end of the block.
\<close>

lemma read_file_size_wraps:
  "read_file fs2 (Some ''f'') 5 (SIZE_MOD - 3) (Some ()) = Inl Undefined"
proof -
  have big: "SIZE_MOD - 3 = 18446744073709551613"
    by (simp add: SIZE_MOD_def)
  have nb: "num_blocks (file_table fs2 0) = 1"
    by (simp add: fs2_table fs1_result create_result_def blocks_needed_def BLOCK_SIZE_def)
  have sa: "size_add 5 18446744073709551613 = 2"
    by (simp add: size_add_def SIZE_MOD_def)
  have c: "(0::nat) < 18446744073709551613 \<and> 0 < num_blocks (file_table fs2 0)"
    by (simp add: nb)
  have n: "\<not> size_add 5 (18446744073709551613 - 0) > BLOCK_SIZE"
    by (simp add: sa BLOCK_SIZE_def)
  have o: "5 + (18446744073709551613 - 0) > BLOCK_SIZE"
    by (simp add: BLOCK_SIZE_def)
  have rl: "read_loop fs2 (file_table fs2 0) 18446744073709551613 0 0 5 [] = None"
    by (subst read_loop.simps) (simp only: c n o Let_def if_True if_False simp_thms)
  have z: "18446744073709551613 \<noteq> (0::nat)" by simp
  have lt: "\<not> 5 \<ge> size_fe (file_table fs2 0)" by (simp add: size_fs2)
  have cl: "\<not> size_add 5 18446744073709551613 > size_fe (file_table fs2 0)"
    by (simp add: sa size_fs2)
  have dm: "5 div BLOCK_SIZE = 0" "5 mod BLOCK_SIZE = 5" by (simp_all add: BLOCK_SIZE_def)
  show ?thesis
    unfolding big read_file_def
    by (simp only: z lt cl dm rl find_file_fs2 Let_def if_True if_False option.case prod.case
        simp_thms)
qed

text \<open>
  C9: every block released to the store is cleared. After \<open>free_blocks\<close>, each block
  index of the list that the call freed (an index inside the pool that was marked
  occupied) is marked free and all \<open>BLOCK_SIZE\<close> of its bytes are zero. So in every
  reachable state every unoccupied block holds only zero bytes, and a file that has just
  been created holds only zero bytes (it takes the first entry that is not in use) and
  reads back as zero bytes.
\<close>

theorem released_blocks_cleared:
  "(i < n \<and> bl i < MAX_BLOCKS \<and> block_map s (bl i) \<longrightarrow>
      \<not> block_map (free_blocks s n bl) (bl i) \<and>
      (\<forall>p<BLOCK_SIZE. blocks (free_blocks s n bl) (bl i) p = NUL)) \<and>
   (reachable s \<longrightarrow>
      (\<forall>b<MAX_BLOCKS. \<not> block_map s b \<longrightarrow> (\<forall>p<BLOCK_SIZE. blocks s b p = NUL))) \<and>
   (reachable s \<and> fst (create_file s (Some nm) sz) = Inr () \<and>
    find (\<lambda>i. \<not> in_use (file_table s i)) [0..<MAX_FILES] = Some fi \<and> ofs < sz \<longrightarrow>
      in_use (file_table (snd (create_file s (Some nm) sz)) fi) \<and>
      size_fe (file_table (snd (create_file s (Some nm) sz)) fi) = sz \<and>
      byte_at (blocks (snd (create_file s (Some nm) sz)))
        (file_table (snd (create_file s (Some nm) sz)) fi) ofs = NUL) \<and>
   (reachable s \<and> fst (create_file s (Some nm) sz) = Inr () \<and> strlen nm < MAX_FILENAME \<and>
    offset < sz \<and> 0 < k \<and> offset + k < SIZE_MOD \<longrightarrow>
      read_file (snd (create_file s (Some nm) sz)) (Some nm) offset k (Some ())
        = Inr (replicate (min k (sz - offset)) NUL @ [NUL]))"
proof (intro conjI impI)
  assume "i < n \<and> bl i < MAX_BLOCKS \<and> block_map s (bl i)"
  then have "bl i \<in> freed s n bl" by (auto simp: freed_def)
  then show "\<not> block_map (free_blocks s n bl) (bl i)"
    and "\<forall>p<BLOCK_SIZE. blocks (free_blocks s n bl) (bl i) p = NUL"
    using free_blocks_cleared[of "bl i" s n bl] by simp_all
next
  assume "reachable s"
  then show "\<forall>b<MAX_BLOCKS. \<not> block_map s b \<longrightarrow> (\<forall>p<BLOCK_SIZE. blocks s b p = NUL)"
    using reachable_fs_inv[of s] by (simp add: fs_inv_def free_zero_def)
next
  assume h: "reachable s \<and> fst (create_file s (Some nm) sz) = Inr () \<and>
    find (\<lambda>i. \<not> in_use (file_table s i)) [0..<MAX_FILES] = Some fi \<and> ofs < sz"
  then have inv: "fs_inv s" by (simp add: reachable_fs_inv)
  from create_content_zero[OF inv, of nm sz fi ofs] h
  show "in_use (file_table (snd (create_file s (Some nm) sz)) fi)"
    and "size_fe (file_table (snd (create_file s (Some nm) sz)) fi) = sz"
    and "byte_at (blocks (snd (create_file s (Some nm) sz)))
        (file_table (snd (create_file s (Some nm) sz)) fi) ofs = NUL"
    by simp_all
next
  assume "reachable s \<and> fst (create_file s (Some nm) sz) = Inr () \<and> strlen nm < MAX_FILENAME \<and>
    offset < sz \<and> 0 < k \<and> offset + k < SIZE_MOD"
  then show "read_file (snd (create_file s (Some nm) sz)) (Some nm) offset k (Some ())
        = Inr (replicate (min k (sz - offset)) NUL @ [NUL])"
    using create_read_zero[OF reachable_fs_inv, of s nm sz offset k] by simp
qed

theorem released_blocks_cleared_witness:
  "blocks fs2 0 0 = CHR ''0'' \<and> blocks fs2 0 9 = CHR ''9'' \<and>
   blocks_fe (file_table fs2 0) 0 = 0 \<and> block_map fs2 0 \<and>
   \<not> block_map (free_blocks fs2 1 (blocks_fe (file_table fs2 0))) 0 \<and>
   blocks (free_blocks fs2 1 (blocks_fe (file_table fs2 0))) 0 0 = NUL \<and>
   blocks (free_blocks fs2 1 (blocks_fe (file_table fs2 0))) 0 9 = NUL \<and>
   reachable fs4 \<and> \<not> block_map fs4 0 \<and> blocks fs4 0 0 = NUL \<and> blocks fs4 0 9 = NUL \<and>
   fst (create_file fs4 (Some ''h'') 10) = Inr () \<and>
   find (\<lambda>i. \<not> in_use (file_table fs4 i)) [0..<MAX_FILES] = Some 0 \<and>
   blocks_fe (file_table fs5 0) 0 = 0 \<and>
   byte_at (blocks fs5) (file_table fs5 0) 9 = NUL \<and>
   read_file fs5 (Some ''h'') 0 10 (Some ()) = Inr (replicate 10 NUL @ [NUL])"
proof -
  let ?bl = "blocks_fe (file_table fs2 0)"
  have d: "blocks fs2 0 0 = CHR ''0''" "blocks fs2 0 9 = CHR ''9''"
    using blocks_fs2_at[of 0] blocks_fs2_at[of 9] by simp_all
  have e: "?bl 0 = 0" "block_map fs2 0"
    by (simp_all add: fs2_table fs1_entry fs2_fields block_map_fs1)
  have p: "(0::nat) < BLOCK_SIZE" "(9::nat) < BLOCK_SIZE" "(0::nat) < MAX_BLOCKS"
    by (simp_all add: BLOCK_SIZE_def MAX_BLOCKS_eq)
  have "(0::nat) < 1 \<and> ?bl 0 < MAX_BLOCKS \<and> block_map fs2 (?bl 0)"
    using e p by simp
  with released_blocks_cleared[where i = 0 and n = 1 and bl = ?bl and s = fs2, THEN conjunct1]
  have "\<not> block_map (free_blocks fs2 1 ?bl) (?bl 0) \<and>
      (\<forall>p<BLOCK_SIZE. blocks (free_blocks fs2 1 ?bl) (?bl 0) p = NUL)"
    by (rule mp)
  then have a: "\<not> block_map (free_blocks fs2 1 ?bl) 0"
    "blocks (free_blocks fs2 1 ?bl) 0 0 = NUL" "blocks (free_blocks fs2 1 ?bl) 0 9 = NUL"
    using e(1) p by simp_all
  have "\<forall>b<MAX_BLOCKS. \<not> block_map fs4 b \<longrightarrow> (\<forall>p<BLOCK_SIZE. blocks fs4 b p = NUL)"
    using released_blocks_cleared[where s = fs4, THEN conjunct2, THEN conjunct1] reachable_fs4
    by (rule mp)
  then have b: "blocks fs4 0 0 = NUL" "blocks fs4 0 9 = NUL"
    using p block_map_fs4 by simp_all
  have c: "fst (create_file fs4 (Some ''h'') 10) = Inr ()" by (simp add: fs5_eq)
  have rd: "strlen ''h'' < MAX_FILENAME" "(0::nat) < 10" "(9::nat) < 10" "(0::nat) + 10 < SIZE_MOD"
    by (simp_all add: strlen_g MAX_FILENAME_def SIZE_MOD_def)
  note t = released_blocks_cleared[where s = fs4 and nm = "''h''" and sz = 10 and offset = 0
          and k = 10 and fi = 0 and ofs = 9]
  have "reachable fs4 \<and> fst (create_file fs4 (Some ''h'') 10) = Inr () \<and>
      find (\<lambda>i. \<not> in_use (file_table fs4 i)) [0..<MAX_FILES] = Some 0 \<and> (9::nat) < 10"
    using reachable_fs4 c free_slot_fs4 rd(3) by (intro conjI)
  with t[THEN conjunct2, THEN conjunct2, THEN conjunct1]
  have "in_use (file_table fs5 0) \<and> size_fe (file_table fs5 0) = 10 \<and>
      byte_at (blocks fs5) (file_table fs5 0) 9 = NUL"
    unfolding fs5_def by (rule mp)
  then have z: "byte_at (blocks fs5) (file_table fs5 0) 9 = NUL" by (elim conjE)
  have "reachable fs4 \<and> fst (create_file fs4 (Some ''h'') 10) = Inr () \<and>
      strlen ''h'' < MAX_FILENAME \<and> (0::nat) < 10 \<and> (0::nat) < 10 \<and> (0::nat) + 10 < SIZE_MOD"
    using reachable_fs4 c rd by (intro conjI)
  with t[THEN conjunct2, THEN conjunct2, THEN conjunct2]
  have "read_file fs5 (Some ''h'') 0 10 (Some ()) = Inr (replicate (min 10 (10 - 0)) NUL @ [NUL])"
    unfolding fs5_def by (rule mp)
  then have r: "read_file fs5 (Some ''h'') 0 10 (Some ()) = Inr (replicate 10 NUL @ [NUL])"
    by simp
  show ?thesis
    by (intro conjI d e a b c z r reachable_fs4 free_slot_fs4 fs5_block)
      (simp add: block_map_fs4)
qed

text \<open>
  C10: \<open>write_file\<close> has no length parameter and takes the length of its payload from
  the first zero byte of the data: a call with data \<open>d\<close> is the call with the prefix of
  \<open>d\<close> before its first zero byte, \<open>c_str d\<close>; a successful call in a reachable state
  writes as many bytes as that prefix has, and afterwards the file holds that prefix at
  the offsets from \<open>offset\<close> on and its former content at every other offset, the table
  of files being as before; and no byte that a call changes in the block store is a zero
  byte afterwards.
\<close>

theorem write_file_payload_strlen:
  "write_file s fname offset (Some d) = write_file s fname offset (Some (c_str d)) \<and>
   (reachable s \<and> fst (write_file s fname offset (Some d)) = Inr k \<longrightarrow>
      k = length (takeWhile (\<lambda>c. c \<noteq> NUL) d)) \<and>
   (reachable s \<and> find_file s nm = Some fi \<and>
    fst (write_file s (Some nm) offset (Some d)) = Inr k \<and>
    ofs < num_blocks (file_table s fi) * BLOCK_SIZE \<longrightarrow>
      file_table (snd (write_file s (Some nm) offset (Some d))) = file_table s \<and>
      byte_at (blocks (snd (write_file s (Some nm) offset (Some d)))) (file_table s fi) ofs =
        (if offset \<le> ofs \<and> ofs < offset + strlen d then c_str d ! (ofs - offset)
         else byte_at (blocks s) (file_table s fi) ofs)) \<and>
   (blocks (snd (write_file s fname offset data)) b p \<noteq> blocks s b p \<longrightarrow>
      blocks (snd (write_file s fname offset data)) b p \<noteq> NUL)"
proof (intro conjI impI)
  show "write_file s fname offset (Some d) = write_file s fname offset (Some (c_str d))"
    by (rule write_file_c_str)
next
  assume h: "reachable s \<and> fst (write_file s fname offset (Some d)) = Inr k"
  then obtain nm fi where f: "fname = Some nm" "find_file s nm = Some fi"
    "offset + strlen d \<le> size_fe (file_table s fi)"
    using write_file_Inr[of s fname offset "Some d" k] by auto
  have "fst (write_file s fname offset (Some d)) = Inr (strlen d)"
    using write_file_ok(1)[OF reachable_fs_inv f(2,3)] h f(1) by simp
  then show "k = length (takeWhile (\<lambda>c. c \<noteq> NUL) d)"
    using h by (simp add: strlen_def c_str_def)
next
  assume h: "reachable s \<and> find_file s nm = Some fi \<and>
    fst (write_file s (Some nm) offset (Some d)) = Inr k \<and>
    ofs < num_blocks (file_table s fi) * BLOCK_SIZE"
  then have inv: "fs_inv s" by (simp add: reachable_fs_inv)
  from h have le: "offset + strlen d \<le> size_fe (file_table s fi)"
    using write_file_Inr[of s "Some nm" offset "Some d" k] by auto
  show "file_table (snd (write_file s (Some nm) offset (Some d))) = file_table s"
    using h by (intro write_file_ok(2)[OF inv _ le]) simp
  have "ofs - offset < strlen d \<Longrightarrow> d ! (ofs - offset) = c_str d ! (ofs - offset)"
    by (simp add: c_str_take)
  moreover have "offset \<le> ofs \<and> ofs < offset + strlen d \<Longrightarrow> ofs - offset < strlen d"
    by auto
  ultimately show "byte_at (blocks (snd (write_file s (Some nm) offset (Some d))))
        (file_table s fi) ofs =
        (if offset \<le> ofs \<and> ofs < offset + strlen d then c_str d ! (ofs - offset)
         else byte_at (blocks s) (file_table s fi) ofs)"
    using write_file_ok(3)[OF inv _ le, where ofs = ofs] h by simp
next
  assume "blocks (snd (write_file s fname offset data)) b p \<noteq> blocks s b p"
  then show "blocks (snd (write_file s fname offset data)) b p \<noteq> NUL"
    by (rule write_file_no_NUL)
qed

theorem write_file_payload_strlen_witness:
  "c_str (''ab'' @ [NUL] @ ''cd'') = ''ab'' \<and>
   write_file fs2 (Some ''f'') 3 (Some (''ab'' @ [NUL] @ ''cd''))
     = write_file fs2 (Some ''f'') 3 (Some ''ab'') \<and>
   reachable fs2 \<and> find_file fs2 ''f'' = Some 0 \<and>
   fst (write_file fs2 (Some ''f'') 3 (Some (''ab'' @ [NUL] @ ''cd''))) = Inr 2 \<and>
   blocks fs2 0 2 = CHR ''2'' \<and> blocks fs2 0 3 = CHR ''3'' \<and> blocks fs2 0 4 = CHR ''4'' \<and>
   blocks fs2 0 5 = CHR ''5'' \<and> blocks fs2 0 6 = CHR ''6'' \<and>
   blocks (snd (write_file fs2 (Some ''f'') 3 (Some (''ab'' @ [NUL] @ ''cd'')))) 0 2 = CHR ''2'' \<and>
   blocks (snd (write_file fs2 (Some ''f'') 3 (Some (''ab'' @ [NUL] @ ''cd'')))) 0 3 = CHR ''a'' \<and>
   blocks (snd (write_file fs2 (Some ''f'') 3 (Some (''ab'' @ [NUL] @ ''cd'')))) 0 4 = CHR ''b'' \<and>
   blocks (snd (write_file fs2 (Some ''f'') 3 (Some (''ab'' @ [NUL] @ ''cd'')))) 0 5 = CHR ''5'' \<and>
   blocks (snd (write_file fs2 (Some ''f'') 3 (Some (''ab'' @ [NUL] @ ''cd'')))) 0 6 = CHR ''6'' \<and>
   blocks (snd (write_file fs2 (Some ''f'') 3 (Some (''ab'' @ [NUL] @ ''cd'')))) 0 4 \<noteq> NUL"
proof -
  let ?d = "''ab'' @ [NUL] @ ''cd''"
  let ?s = "snd (write_file fs2 (Some ''f'') 3 (Some ?d))"
  have cs: "c_str ?d = ''ab''" "strlen ?d = 2" by (simp_all add: strlen_def c_str_def NUL_def)
  have w: "fst (write_file fs2 (Some ''f'') 3 (Some ?d)) = Inr 2"
    using write_file_ok(1)[OF fs_inv_fs2 find_file_fs2, of 3 ?d] cs(2) by (simp add: size_fs2)
  have old: "blocks fs2 0 2 = CHR ''2''" "blocks fs2 0 3 = CHR ''3''" "blocks fs2 0 4 = CHR ''4''"
    "blocks fs2 0 5 = CHR ''5''" "blocks fs2 0 6 = CHR ''6''"
    using blocks_fs2_at[of 2] blocks_fs2_at[of 3] blocks_fs2_at[of 4] blocks_fs2_at[of 5]
      blocks_fs2_at[of 6] by simp_all
  have at: "byte_at blks (file_table fs2 0) q = blks 0 q" if "q < 10" for blks q
  proof -
    have "q div BLOCK_SIZE = 0" "q mod BLOCK_SIZE = q" using that by (simp_all add: BLOCK_SIZE_def)
    then show ?thesis by (simp add: byte_at_def fs2_table fs1_entry)
  qed
  have nb: "q < num_blocks (file_table fs2 0) * BLOCK_SIZE" if "q < 10" for q
    using that by (simp add: fs2_table fs1_entry BLOCK_SIZE_def)
  have st: "blocks ?s 0 q = (if 3 \<le> q \<and> q < 3 + 2 then ''ab'' ! (q - 3) else blocks fs2 0 q)"
    if "q < 10" for q
  proof -
    have "reachable fs2 \<and> find_file fs2 ''f'' = Some 0 \<and>
        fst (write_file fs2 (Some ''f'') 3 (Some ?d)) = Inr 2 \<and>
        q < num_blocks (file_table fs2 0) * BLOCK_SIZE"
      using reachable_fs2 find_file_fs2 w nb[OF that] by blast
    then have "byte_at (blocks ?s) (file_table fs2 0) q =
        (if 3 \<le> q \<and> q < 3 + strlen ?d then c_str ?d ! (q - 3)
         else byte_at (blocks fs2) (file_table fs2 0) q)"
      using write_file_payload_strlen[where s = fs2 and nm = "''f''" and fi = 0 and offset = 3
          and d = ?d and k = 2 and ofs = q] by blast
    then show ?thesis unfolding at[OF that] cs .
  qed
  have new: "blocks ?s 0 2 = CHR ''2''" "blocks ?s 0 3 = CHR ''a''" "blocks ?s 0 4 = CHR ''b''"
    "blocks ?s 0 5 = CHR ''5''" "blocks ?s 0 6 = CHR ''6''"
    using st[of 2] st[of 3] st[of 4] st[of 5] st[of 6] old by simp_all
  have ne: "CHR ''b'' \<noteq> NUL" "CHR ''b'' \<noteq> CHR ''4''" by (simp_all add: NUL_def)
  have "blocks ?s 0 4 \<noteq> NUL"
    using write_file_payload_strlen[where s = fs2 and fname = "Some ''f''" and offset = 3
        and data = "Some ?d" and b = 0 and p = 4] new(3) old(3) ne
    by simp
  moreover have "write_file fs2 (Some ''f'') 3 (Some ?d) = write_file fs2 (Some ''f'') 3 (Some ''ab'')"
    using write_file_payload_strlen[where s = fs2 and fname = "Some ''f''" and offset = 3
        and d = ?d] by (simp only: cs)
  ultimately show ?thesis
    using cs(1) reachable_fs2 find_file_fs2 w old new by simp
qed

end
